theory Spec2Isabelle
  imports Main "HOL-Library.Word" "HOL-Library.Monad_Syntax" "HOL-Library.List_Lexorder"
begin

unbundle bit_operations_syntax

section \<open>Bytes, slices and little-endian integers\<close>

text \<open>
  A \<open>BNode\<close> is a Go byte slice. Every buffer of the program is made by \<open>make([]byte, n)\<close>
  or handed over by the host, so its length and capacity agree; a slice expression or an
  index outside the buffer panics. A panic (and a failed \<open>assert\<close>) is the value \<open>None\<close>.
  Writes through a sub-slice \<open>node[pos:]\<close> land in the buffer itself, so every write
  is modelled on the whole buffer at an absolute position.
\<close>

type_synonym byte = "8 word"
type_synonym u16 = "16 word"
type_synonym u64 = "64 word"
type_synonym BNode = "byte list"

definition BTREE_PAGE_SIZE :: nat where
  "BTREE_PAGE_SIZE = 4096"

definition BTREE_MAX_KEY_SIZE :: nat where
  "BTREE_MAX_KEY_SIZE = 1000"

definition BTREE_MAX_VAL_SIZE :: nat where
  "BTREE_MAX_VAL_SIZE = 3000"

text \<open>Modelled from the spec: the constant \<open>HEADER\<close> is used by \<open>shouldMerge\<close> but is
  declared nowhere in the source; section 6.4 of the spec gives \<open>HEADER = 4\<close>.\<close>

definition HEADER :: u16 where
  "HEADER = 4"

text \<open>Modelled from the spec: the kind tags \<open>BNODE_LEAF\<close> and \<open>BNODE_NODE\<close> are used but
  declared nowhere in the source; section 3.2 of the spec gives LEAF = 1 and INNER = 2.\<close>

definition BNODE_LEAF :: u16 where
  "BNODE_LEAF = 1"

definition BNODE_NODE :: u16 where
  "BNODE_NODE = 2"

text \<open>Modelled from the spec: \<open>assert\<close> is called but declared nowhere in the source;
  sections 4.1 and 7 of the spec make a violated precondition a fatal fault.\<close>

definition assert :: "bool \<Rightarrow> unit option" where
  "assert c = (if c then Some () else None)"

text \<open>\<open>binary.LittleEndian\<close>: byte 0 is the least significant one.\<close>

fun le_decode :: "byte list \<Rightarrow> 'a::len word" where
  "le_decode [] = 0"
| "le_decode (b # bs) = ucast b OR push_bit 8 (le_decode bs)"

fun le_encode :: "nat \<Rightarrow> 'a::len word \<Rightarrow> byte list" where
  "le_encode 0 w = []"
| "le_encode (Suc n) w = ucast w # le_encode n (drop_bit 8 w)"

text \<open>\<open>s[lo:hi]\<close> and \<open>s[lo:]\<close>.\<close>

definition slice :: "byte list \<Rightarrow> nat \<Rightarrow> nat \<Rightarrow> byte list option" where
  "slice s lo hi = (if lo \<le> hi \<and> hi \<le> length s then Some (take (hi - lo) (drop lo s)) else None)"

definition slice_from :: "byte list \<Rightarrow> nat \<Rightarrow> byte list option" where
  "slice_from s lo = slice s lo (length s)"

text \<open>Overwriting the bytes of \<open>b\<close> from position \<open>pos\<close> on with \<open>bs\<close>.\<close>

definition write_at :: "BNode \<Rightarrow> nat \<Rightarrow> byte list \<Rightarrow> BNode" where
  "write_at b pos bs = take pos b @ bs @ drop (pos + length bs) b"

definition Uint16 :: "byte list \<Rightarrow> u16 option" where
  "Uint16 b = (if length b < 2 then None else Some (le_decode (take 2 b)))"

definition Uint64 :: "byte list \<Rightarrow> u64 option" where
  "Uint64 b = (if length b < 8 then None else Some (le_decode (take 8 b)))"

text \<open>\<open>PutUint16(node[lo:hi], v)\<close> and \<open>PutUint64(node[lo:hi], v)\<close>, as the buffer after
  the write.\<close>

definition PutUint16 :: "BNode \<Rightarrow> nat \<Rightarrow> nat \<Rightarrow> u16 \<Rightarrow> BNode option" where
  "PutUint16 node lo hi v =
     (if lo \<le> hi \<and> hi \<le> length node \<and> 2 \<le> hi - lo
      then Some (write_at node lo (le_encode 2 v)) else None)"

definition PutUint64 :: "BNode \<Rightarrow> nat \<Rightarrow> nat \<Rightarrow> u64 \<Rightarrow> BNode option" where
  "PutUint64 node lo hi v =
     (if lo \<le> hi \<and> hi \<le> length node \<and> 8 \<le> hi - lo
      then Some (write_at node lo (le_encode 8 v)) else None)"

text \<open>\<open>copy(node[pos:], src)\<close>: copies as many bytes as fit, and panics only when the
  slice expression does.\<close>

definition copy :: "BNode \<Rightarrow> nat \<Rightarrow> byte list \<Rightarrow> BNode option" where
  "copy node pos src =
     (if pos \<le> length node then Some (write_at node pos (take (length node - pos) src))
      else None)"

text \<open>\<open>make([]byte, n)\<close>.\<close>

definition make_bytes :: "nat \<Rightarrow> BNode" where
  "make_bytes n = replicate n 0"

text \<open>\<open>bytes.Compare\<close> and \<open>bytes.Equal\<close>: unsigned byte-lexicographic comparison.\<close>

fun bytes_Compare :: "byte list \<Rightarrow> byte list \<Rightarrow> int" where
  "bytes_Compare [] [] = 0"
| "bytes_Compare [] (y # ys) = -1"
| "bytes_Compare (x # xs) [] = 1"
| "bytes_Compare (x # xs) (y # ys) =
     (if x < y then -1 else if y < x then 1 else bytes_Compare xs ys)"

definition bytes_Equal :: "byte list \<Rightarrow> byte list \<Rightarrow> bool" where
  "bytes_Equal a b = (a = b)"

section \<open>The page codec\<close>

definition btype :: "BNode \<Rightarrow> u16 option" where
  "btype node = do { b \<leftarrow> slice node 0 2; Uint16 b }"

definition nkeys :: "BNode \<Rightarrow> u16 option" where
  "nkeys node = do { b \<leftarrow> slice node 2 4; Uint16 b }"

definition setHeader :: "BNode \<Rightarrow> u16 \<Rightarrow> u16 \<Rightarrow> BNode option" where
  "setHeader node bt nk = do {
     node \<leftarrow> PutUint16 node 0 2 bt;
     PutUint16 node 2 4 nk
   }"

definition getPtr :: "BNode \<Rightarrow> u16 \<Rightarrow> u64 option" where
  "getPtr node idx = do {
     n \<leftarrow> nkeys node;
     _ \<leftarrow> assert (idx < n);
     b \<leftarrow> slice_from node (unat (4 + 8 * idx));
     Uint64 b
   }"

definition setPtr :: "BNode \<Rightarrow> u16 \<Rightarrow> u64 \<Rightarrow> BNode option" where
  "setPtr node idx v = do {
     n \<leftarrow> nkeys node;
     _ \<leftarrow> assert (idx < n);
     PutUint64 node (unat (4 + 8 * idx)) (length node) v
   }"

definition getOffset :: "BNode \<Rightarrow> u16 \<Rightarrow> u16 option" where
  "getOffset node idx =
     (if idx = 0 then Some 0
      else do {
        n \<leftarrow> nkeys node;
        b \<leftarrow> slice_from node (unat (4 + 8 * n + 2 * (idx - 1)));
        Uint16 b
      })"

text \<open>Modelled from the spec: \<open>setOffset\<close> is called by \<open>nodeAppendKV\<close> but declared
  nowhere in the source. Section 4.1 of the spec reads \<open>off(i)\<close> for \<open>i \<ge> 1\<close> from the
  stored cell \<open>i - 1\<close>, so \<open>setOffset(idx, v)\<close> stores \<open>v\<close> in the cell that
  \<open>getOffset(idx)\<close> reads.\<close>

definition setOffset :: "BNode \<Rightarrow> u16 \<Rightarrow> u16 \<Rightarrow> BNode option" where
  "setOffset node idx v = do {
     n \<leftarrow> nkeys node;
     PutUint16 node (unat (4 + 8 * n + 2 * (idx - 1))) (length node) v
   }"

definition kvPos :: "BNode \<Rightarrow> u16 \<Rightarrow> u16 option" where
  "kvPos node idx = do {
     n \<leftarrow> nkeys node;
     _ \<leftarrow> assert (idx \<le> n);
     off \<leftarrow> getOffset node idx;
     Some (4 + 8 * n + 2 * n + off)
   }"

definition getKey :: "BNode \<Rightarrow> u16 \<Rightarrow> byte list option" where
  "getKey node idx = do {
     n \<leftarrow> nkeys node;
     _ \<leftarrow> assert (idx < n);
     pos \<leftarrow> kvPos node idx;
     b \<leftarrow> slice_from node (unat pos);
     klen \<leftarrow> Uint16 b;
     s \<leftarrow> slice_from node (unat (pos + 4));
     slice s 0 (unat klen)
   }"

definition getVal :: "BNode \<Rightarrow> u16 \<Rightarrow> byte list option" where
  "getVal node idx = do {
     n \<leftarrow> nkeys node;
     _ \<leftarrow> assert (idx < n);
     pos \<leftarrow> kvPos node idx;
     b \<leftarrow> slice_from node (unat (pos + 0));
     klen \<leftarrow> Uint16 b;
     b \<leftarrow> slice_from node (unat (pos + 2));
     vlen \<leftarrow> Uint16 b;
     s \<leftarrow> slice_from node (unat (pos + 4 + klen));
     slice s 0 (unat vlen)
   }"

definition nbytes :: "BNode \<Rightarrow> u16 option" where
  "nbytes node = do { n \<leftarrow> nkeys node; kvPos node n }"

section \<open>The node builder\<close>

definition nodeAppendKV :: "BNode \<Rightarrow> u16 \<Rightarrow> u64 \<Rightarrow> byte list \<Rightarrow> byte list \<Rightarrow> BNode option" where
  "nodeAppendKV new idx ptr key val = do {
     new \<leftarrow> setPtr new idx ptr;
     pos \<leftarrow> kvPos new idx;
     new \<leftarrow> PutUint16 new (unat (pos + 0)) (length new) (of_nat (length key));
     new \<leftarrow> PutUint16 new (unat (pos + 2)) (length new) (of_nat (length val));
     new \<leftarrow> copy new (unat (pos + 4)) key;
     new \<leftarrow> copy new (unat (pos + 4 + of_nat (length key))) val;
     off \<leftarrow> getOffset new idx;
     setOffset new (idx + 1) (off + 4 + of_nat (length key + length val))
   }"

text \<open>The loop of \<open>nodeAppendRange\<close>, from counter \<open>i\<close> on.\<close>

function nodeAppendRange_loop ::
  "BNode \<Rightarrow> BNode \<Rightarrow> u16 \<Rightarrow> u16 \<Rightarrow> u16 \<Rightarrow> u16 \<Rightarrow> BNode option" where
  "nodeAppendRange_loop new old dstNew srcOld n i =
     (if i < n then do {
        ptr \<leftarrow> getPtr old (srcOld + i);
        key \<leftarrow> getKey old (srcOld + i);
        val \<leftarrow> getVal old (srcOld + i);
        new \<leftarrow> nodeAppendKV new (dstNew + i) ptr key val;
        nodeAppendRange_loop new old dstNew srcOld n (i + 1)
      } else Some new)"
  by pat_completeness auto
termination
proof (relation "measure (\<lambda>(new, old, dstNew, srcOld, n, i). unat n - unat i)")
  show "wf (measure (\<lambda>(new, old, dstNew, srcOld, n, i). unat n - unat i))"
    by simp
next
  fix new old :: BNode and dstNew srcOld n i :: u16 and ptr :: u64 and key val new' :: "byte list"
  assume "i < n"
  then have "unat (i + 1) = unat i + 1" and "unat i < unat n"
    by unat_arith+
  then show "((new', old, dstNew, srcOld, n, i + 1), (new, old, dstNew, srcOld, n, i))
        \<in> measure (\<lambda>(new, old, dstNew, srcOld, n, i). unat n - unat i)"
    by simp
qed

definition nodeAppendRange :: "BNode \<Rightarrow> BNode \<Rightarrow> u16 \<Rightarrow> u16 \<Rightarrow> u16 \<Rightarrow> BNode option" where
  "nodeAppendRange new old dstNew srcOld n = nodeAppendRange_loop new old dstNew srcOld n 0"

text \<open>The source of \<open>leafInsert\<close> writes the new key with \<open>nodeAppend\<close>, a name declared
  nowhere; the call has the arguments of \<open>nodeAppendKV\<close> and is modelled as that call.\<close>

definition leafInsert :: "BNode \<Rightarrow> BNode \<Rightarrow> u16 \<Rightarrow> byte list \<Rightarrow> byte list \<Rightarrow> BNode option" where
  "leafInsert new old idx key val = do {
     n \<leftarrow> nkeys old;
     new \<leftarrow> setHeader new BNODE_LEAF (n + 1);
     new \<leftarrow> nodeAppendRange new old 0 0 idx;
     new \<leftarrow> nodeAppendKV new idx 0 key val;
     n \<leftarrow> nkeys old;
     nodeAppendRange new old (idx + 1) idx (n - idx)
   }"

definition leafUpdate :: "BNode \<Rightarrow> BNode \<Rightarrow> u16 \<Rightarrow> byte list \<Rightarrow> byte list \<Rightarrow> BNode option" where
  "leafUpdate new old idx key val = do {
     n \<leftarrow> nkeys old;
     new \<leftarrow> setHeader new BNODE_LEAF n;
     new \<leftarrow> nodeAppendRange new old 0 0 idx;
     new \<leftarrow> nodeAppendKV new idx 0 key val;
     n \<leftarrow> nkeys old;
     nodeAppendRange new old (idx + 1) (idx + 1) (n - (idx + 1))
   }"

section \<open>Descent: the last position whose key is at most the search key\<close>

function nodeLookupLE_loop :: "BNode \<Rightarrow> byte list \<Rightarrow> u16 \<Rightarrow> u16 \<Rightarrow> u16 option" where
  "nodeLookupLE_loop node key n i =
     (if i < n then do {
        k \<leftarrow> getKey node i;
        let cmp = bytes_Compare k key in
        if cmp = 0 then Some i
        else if cmp > 0 then Some (i - 1)
        else nodeLookupLE_loop node key n (i + 1)
      } else Some (i - 1))"
  by pat_completeness auto
termination
proof (relation "measure (\<lambda>(node, key, n, i). unat n - unat i)")
  show "wf (measure (\<lambda>(node, key, n, i). unat n - unat i))"
    by simp
next
  fix node key :: "byte list" and n i :: u16 and k :: "byte list" and cmp :: int
  assume "i < n"
  then have "unat (i + 1) = unat i + 1" and "unat i < unat n"
    by unat_arith+
  then show "((node, key, n, i + 1), (node, key, n, i))
        \<in> measure (\<lambda>(node, key, n, i). unat n - unat i)"
    by simp
qed

definition nodeLookupLE :: "BNode \<Rightarrow> byte list \<Rightarrow> u16 option" where
  "nodeLookupLE node key = do { n \<leftarrow> nkeys node; nodeLookupLE_loop node key n 0 }"

section \<open>Splitting an oversized node\<close>

text \<open>The closure \<open>left_bytes\<close> of \<open>nodeSplit2\<close>, at the current \<open>nleft\<close>.\<close>

definition left_bytes :: "BNode \<Rightarrow> u16 \<Rightarrow> u16 option" where
  "left_bytes old nleft = do {
     off \<leftarrow> getOffset old nleft;
     Some (4 + 8 * nleft + 2 * nleft + off)
   }"

text \<open>The closure \<open>right_bytes\<close> of \<open>nodeSplit2\<close>, at the current \<open>nleft\<close>.\<close>

definition right_bytes :: "BNode \<Rightarrow> u16 \<Rightarrow> u16 option" where
  "right_bytes old nleft = do {
     nb \<leftarrow> nbytes old;
     lb \<leftarrow> left_bytes old nleft;
     Some (nb - lb + 4)
   }"

text \<open>\<open>for left_bytes() > BTREE_PAGE_SIZE { nleft-- }\<close>\<close>

function nodeSplit2_fit_left :: "BNode \<Rightarrow> u16 \<Rightarrow> u16 option" where
  "nodeSplit2_fit_left old nleft = do {
     lb \<leftarrow> left_bytes old nleft;
     if unat lb > BTREE_PAGE_SIZE then nodeSplit2_fit_left old (nleft - 1) else Some nleft
   }"
  by pat_completeness auto
termination
proof (relation "measure (\<lambda>(old, nleft). unat nleft)")
  show "wf (measure (\<lambda>(old, nleft). unat nleft))"
    by simp
next
  fix old :: BNode and nleft lb :: u16
  assume lb: "left_bytes old nleft = Some lb" and big: "BTREE_PAGE_SIZE < unat lb"
  have "nleft \<noteq> 0"
  proof
    assume "nleft = 0"
    with lb have "lb = 4"
      by (simp add: left_bytes_def getOffset_def)
    with big show False
      by (simp add: BTREE_PAGE_SIZE_def)
  qed
  then have "unat (nleft - 1) < unat nleft"
    by (simp add: unat_minus_one unat_gt_0)
  then show "((old, nleft - 1), (old, nleft)) \<in> measure (\<lambda>(old, nleft). unat nleft)"
    by simp
qed

text \<open>\<open>for right_bytes() > BTREE_PAGE_SIZE { nleft++ }\<close>\<close>

function nodeSplit2_fit_right :: "BNode \<Rightarrow> u16 \<Rightarrow> u16 option" where
  "nodeSplit2_fit_right old nleft = do {
     rb \<leftarrow> right_bytes old nleft;
     if unat rb > BTREE_PAGE_SIZE then nodeSplit2_fit_right old (nleft + 1) else Some nleft
   }"
  by pat_completeness auto
termination
proof (relation "measure (\<lambda>(old, nleft). case nkeys old of None \<Rightarrow> 0 | Some n \<Rightarrow> unat (n - nleft))")
  show "wf (measure (\<lambda>(old, nleft). case nkeys old of None \<Rightarrow> 0 | Some n \<Rightarrow> unat (n - nleft)))"
    by simp
next
  fix old :: BNode and nleft rb :: u16
  assume rb: "right_bytes old nleft = Some rb" and big: "BTREE_PAGE_SIZE < unat rb"
  from rb obtain n where n: "nkeys old = Some n"
    by (auto simp: right_bytes_def nbytes_def split: Option.bind_splits)
  have "n - nleft \<noteq> 0"
  proof
    assume "n - nleft = 0"
    then have "nleft = n"
      by simp
    with rb n have "rb = 4"
      by (auto simp: right_bytes_def nbytes_def kvPos_def left_bytes_def
          split: Option.bind_splits)
    with big show False
      by (simp add: BTREE_PAGE_SIZE_def)
  qed
  then have "unat (n - nleft - 1) < unat (n - nleft)"
    by (simp add: unat_minus_one unat_gt_0)
  then have "unat (n - (nleft + 1)) < unat (n - nleft)"
    by (simp only: diff_diff_eq)
  then show "((old, nleft + 1), (old, nleft))
      \<in> measure (\<lambda>(old, nleft). case nkeys old of None \<Rightarrow> 0 | Some n \<Rightarrow> unat (n - nleft))"
    using n by simp
qed

definition nodeSplit2 :: "BNode \<Rightarrow> BNode \<Rightarrow> BNode \<Rightarrow> (BNode \<times> BNode) option" where
  "nodeSplit2 left right old = do {
     n \<leftarrow> nkeys old;
     _ \<leftarrow> assert (n \<ge> 2);
     nleft \<leftarrow> nodeSplit2_fit_left old (n div 2);
     _ \<leftarrow> assert (nleft \<ge> 1);
     nleft \<leftarrow> nodeSplit2_fit_right old nleft;
     n \<leftarrow> nkeys old;
     _ \<leftarrow> assert (nleft < n);
     let nright = n - nleft in do {
       bt \<leftarrow> btype old;
       left \<leftarrow> setHeader left bt nleft;
       bt \<leftarrow> btype old;
       right \<leftarrow> setHeader right bt nright;
       left \<leftarrow> nodeAppendRange left old 0 0 nleft;
       right \<leftarrow> nodeAppendRange right old 0 nleft nright;
       rb \<leftarrow> nbytes right;
       _ \<leftarrow> assert (unat rb \<le> BTREE_PAGE_SIZE);
       Some (left, right)
     }
   }"

text \<open>The result array \<open>[3]BNode\<close> is a list of three buffers; an element the source
  leaves out is the nil slice \<open>[]\<close>.\<close>

definition nodeSplit3 :: "BNode \<Rightarrow> (u16 \<times> BNode list) option" where
  "nodeSplit3 old = do {
     nb \<leftarrow> nbytes old;
     if unat nb \<le> BTREE_PAGE_SIZE then do {
       old \<leftarrow> slice old 0 BTREE_PAGE_SIZE;
       Some (1, [old, [], []])
     } else do {
       (left, right) \<leftarrow> nodeSplit2 (make_bytes (2 * BTREE_PAGE_SIZE)) (make_bytes BTREE_PAGE_SIZE) old;
       lb \<leftarrow> nbytes left;
       if unat lb \<le> BTREE_PAGE_SIZE then do {
         left \<leftarrow> slice left 0 BTREE_PAGE_SIZE;
         Some (2, [left, right, []])
       } else do {
         (leftleft, middle) \<leftarrow> nodeSplit2 (make_bytes BTREE_PAGE_SIZE) (make_bytes BTREE_PAGE_SIZE) left;
         llb \<leftarrow> nbytes leftleft;
         _ \<leftarrow> assert (unat llb \<le> BTREE_PAGE_SIZE);
         Some (3, [leftleft, middle, right])
       }
     }
   }"

section \<open>The tree and its host\<close>

text \<open>
  The three callbacks of \<open>BTree\<close> are closures over a state of the host, here \<open>'h\<close>:
  \<open>get\<close> reads it, \<open>new\<close> and \<open>del\<close> change it. \<open>calls\<close> is a ghost field: the
  allocations and frees made so far, in order.
\<close>

datatype event = Alloc BNode u64 | Free u64

record 'h BTree =
  root :: u64
  get :: "'h \<Rightarrow> u64 \<Rightarrow> BNode"
  new :: "'h \<Rightarrow> BNode \<Rightarrow> u64 \<times> 'h"
  del :: "'h \<Rightarrow> u64 \<Rightarrow> 'h"
  host :: 'h
  calls :: "event list"

definition tree_get :: "'h BTree \<Rightarrow> u64 \<Rightarrow> BNode" where
  "tree_get tree p = get tree (host tree) p"

definition tree_new :: "'h BTree \<Rightarrow> BNode \<Rightarrow> u64 \<times> 'h BTree" where
  "tree_new tree page =
     (let (p, h) = new tree (host tree) page
      in (p, tree\<lparr>host := h, calls := calls tree @ [Alloc page p]\<rparr>))"

definition tree_del :: "'h BTree \<Rightarrow> u64 \<Rightarrow> 'h BTree" where
  "tree_del tree p = tree\<lparr>host := del tree (host tree) p, calls := calls tree @ [Free p]\<rparr>"

datatype error = OVERSIZE_KEY | OVERSIZE_VAL

text \<open>Modelled from the spec: \<open>checkLimit\<close> is called by \<open>Insert\<close> but declared nowhere
  in the source. Sections 4.3.2 and 6.2 of the spec reject a key longer than \<open>MAX_KEY\<close>
  with \<open>OVERSIZE_KEY\<close> and a value longer than \<open>MAX_VAL\<close> with \<open>OVERSIZE_VAL\<close>.\<close>

definition checkLimit :: "byte list \<Rightarrow> byte list \<Rightarrow> error option" where
  "checkLimit key val =
     (if length key > BTREE_MAX_KEY_SIZE then Some OVERSIZE_KEY
      else if length val > BTREE_MAX_VAL_SIZE then Some OVERSIZE_VAL
      else None)"

text \<open>The right-sibling half of \<open>shouldMerge\<close>.\<close>

definition shouldMerge_right :: "'h BTree \<Rightarrow> BNode \<Rightarrow> u16 \<Rightarrow> BNode \<Rightarrow> (int \<times> BNode) option" where
  "shouldMerge_right tree node idx updated = do {
     n \<leftarrow> nkeys node;
     if idx + 1 < n then do {
       p \<leftarrow> getPtr node (idx + 1);
       let sibling = tree_get tree p in do {
         sb \<leftarrow> nbytes sibling;
         ub \<leftarrow> nbytes updated;
         let merged = sb + ub - HEADER in
         if unat merged \<le> BTREE_PAGE_SIZE then Some (1, sibling) else Some (0, [])
       }
     } else Some (0, [])
   }"

text \<open>The source's parameter list reads \<open>node BNode, uint16, updated BNode\<close>; the body
  reads \<open>idx\<close>, which is that unnamed \<open>uint16\<close>.\<close>

definition shouldMerge :: "'h BTree \<Rightarrow> BNode \<Rightarrow> u16 \<Rightarrow> BNode \<Rightarrow> (int \<times> BNode) option" where
  "shouldMerge tree node idx updated = do {
     ub \<leftarrow> nbytes updated;
     if unat ub > BTREE_PAGE_SIZE div 4 then Some (0, [])
     else if idx > 0 then do {
       p \<leftarrow> getPtr node (idx - 1);
       let sibling = tree_get tree p in do {
         sb \<leftarrow> nbytes sibling;
         ub \<leftarrow> nbytes updated;
         let merged = sb + ub - HEADER in
         if unat merged \<le> BTREE_PAGE_SIZE then Some (- 1, sibling)
         else shouldMerge_right tree node idx updated
       }
     } else shouldMerge_right tree node idx updated
   }"

text \<open>The loop \<open>for i, node := range kids\<close> of \<open>nodeReplaceKidN\<close>, from index \<open>i\<close> on;
  the loop over \<open>split[:nsplit]\<close> in \<open>Insert\<close> is the same one with \<open>idx = 0\<close>.\<close>

fun append_kids :: "'h BTree \<Rightarrow> BNode \<Rightarrow> u16 \<Rightarrow> nat \<Rightarrow> BNode list \<Rightarrow> (BNode \<times> 'h BTree) option" where
  "append_kids tree newnode idx i [] = Some (newnode, tree)"
| "append_kids tree newnode idx i (node # kids) =
     (let (p, tree) = tree_new tree node in do {
        key \<leftarrow> getKey node 0;
        newnode \<leftarrow> nodeAppendKV newnode (idx + of_nat i) p key [];
        append_kids tree newnode idx (Suc i) kids
      })"

definition nodeReplaceKidN ::
  "'h BTree \<Rightarrow> BNode \<Rightarrow> BNode \<Rightarrow> u16 \<Rightarrow> BNode list \<Rightarrow> (BNode \<times> 'h BTree) option" where
  "nodeReplaceKidN tree newnode old idx kids =
     (let inc = (of_nat (length kids) :: u16) in do {
        n \<leftarrow> nkeys old;
        newnode \<leftarrow> setHeader newnode BNODE_NODE (n + inc - 1);
        newnode \<leftarrow> nodeAppendRange newnode old 0 0 idx;
        (newnode, tree) \<leftarrow> append_kids tree newnode idx 0 kids;
        n \<leftarrow> nkeys old;
        newnode \<leftarrow> nodeAppendRange newnode old (idx + inc) (idx + 1) (n - (idx + 1));
        Some (newnode, tree)
      })"

text \<open>\<open>treeInsert\<close> descends through pages the host returns, so nothing bounds its
  recursion: not returning is the value \<open>None\<close>.\<close>

partial_function (option) treeInsert ::
  "'h BTree \<Rightarrow> BNode \<Rightarrow> byte list \<Rightarrow> byte list \<Rightarrow> (BNode \<times> 'h BTree) option" where
  "treeInsert tree node key val = do {
     idx \<leftarrow> nodeLookupLE node key;
     bt \<leftarrow> btype node;
     if bt = BNODE_LEAF then do {
       k \<leftarrow> getKey node idx;
       newnode \<leftarrow> (if bytes_Equal key k
                   then leafUpdate (make_bytes (2 * BTREE_PAGE_SIZE)) node idx key val
                   else leafInsert (make_bytes (2 * BTREE_PAGE_SIZE)) node (idx + 1) key val);
       Some (newnode, tree)
     } else if bt = BNODE_NODE then do {
       kptr \<leftarrow> getPtr node idx;
       (knode, tree) \<leftarrow> treeInsert tree (tree_get tree kptr) key val;
       (nsplit, split) \<leftarrow> nodeSplit3 knode;
       nodeReplaceKidN (tree_del tree kptr) (make_bytes (2 * BTREE_PAGE_SIZE)) node idx
         (take (unat nsplit) split)
     } else None
   }"

definition Insert :: "'h BTree \<Rightarrow> byte list \<Rightarrow> byte list \<Rightarrow> (error option \<times> 'h BTree) option" where
  "Insert tree key val =
     (case checkLimit key val of
        Some err \<Rightarrow> Some (Some err, tree)
      | None \<Rightarrow>
          if root tree = 0 then do {
            r \<leftarrow> setHeader (make_bytes BTREE_PAGE_SIZE) BNODE_LEAF 2;
            r \<leftarrow> nodeAppendKV r 0 0 [] [];
            r \<leftarrow> nodeAppendKV r 1 0 key val;
            let (p, tree) = tree_new tree r in
            Some (None, tree\<lparr>root := p\<rparr>)
          } else do {
            (node, tree) \<leftarrow> treeInsert tree (tree_get tree (root tree)) key val;
            (nsplit, split) \<leftarrow> nodeSplit3 node;
            let tree = tree_del tree (root tree) in
            if nsplit > 1 then do {
              r \<leftarrow> setHeader (make_bytes BTREE_PAGE_SIZE) BNODE_NODE nsplit;
              (r, tree) \<leftarrow> append_kids tree r 0 0 (take (unat nsplit) split);
              let (p, tree) = tree_new tree r in
              Some (None, tree\<lparr>root := p\<rparr>)
            } else do {
              s0 \<leftarrow> (case split of [] \<Rightarrow> None | s0 # _ \<Rightarrow> Some s0);
              let (p, tree) = tree_new tree s0 in
              Some (None, tree\<lparr>root := p\<rparr>)
            }
          })"

section \<open>The entries of a node\<close>

text \<open>
  An entry is a child pointer with a key and a value. In the KV area it takes the two
  length fields of \<open>nodeAppendKV\<close> (4 bytes) and the bytes of the key and of the value.
\<close>

type_synonym entry = "u64 \<times> byte list \<times> byte list"

definition kv_size :: "entry \<Rightarrow> nat" where
  "kv_size e = 4 + length (fst (snd e)) + length (snd (snd e))"

definition osum :: "entry list \<Rightarrow> nat" where
  "osum es = sum_list (map kv_size es)"

text \<open>The 16-bit and the 64-bit little-endian number at position \<open>p\<close> of a buffer.\<close>

definition rd16 :: "BNode \<Rightarrow> nat \<Rightarrow> u16" where
  "rd16 b p = le_decode (take 2 (drop p b))"

definition rd64 :: "BNode \<Rightarrow> nat \<Rightarrow> u64" where
  "rd64 b p = le_decode (take 8 (drop p b))"

text \<open>
  Entry \<open>i\<close> of a node of \<open>n\<close> keys holds \<open>e\<close> at offset \<open>off\<close> of the KV area: the
  pointer is in cell \<open>i\<close> of the pointer array, the offset cell \<open>i\<close> (the one \<open>getOffset\<close>
  reads for \<open>i + 1\<close>) holds the end of the entry, and the KV area holds the two lengths,
  the key and the value at \<open>HEADER + 8 * n + 2 * n + off\<close>.
\<close>

definition slot :: "BNode \<Rightarrow> nat \<Rightarrow> nat \<Rightarrow> nat \<Rightarrow> entry \<Rightarrow> bool" where
  "slot b n i off e \<longleftrightarrow>
     rd64 b (4 + 8 * i) = fst e
     \<and> rd16 b (4 + 8 * n + 2 * i) = of_nat (off + kv_size e)
     \<and> rd16 b (4 + 10 * n + off) = of_nat (length (fst (snd e)))
     \<and> rd16 b (4 + 10 * n + off + 2) = of_nat (length (snd (snd e)))
     \<and> take (length (fst (snd e))) (drop (4 + 10 * n + off + 4) b) = fst (snd e)
     \<and> take (length (snd (snd e))) (drop (4 + 10 * n + off + 4 + length (fst (snd e))) b)
         = snd (snd e)"

text \<open>
  The first \<open>length es\<close> entries of a buffer with \<open>n\<close> in its key-count field are \<open>es\<close>,
  packed from offset 0 on, and they end inside the buffer.
\<close>

definition layout :: "BNode \<Rightarrow> nat \<Rightarrow> entry list \<Rightarrow> bool" where
  "layout b n es \<longleftrightarrow>
     length b < 65536 \<and> length es \<le> n \<and> 4 + 10 * n + osum es \<le> length b
     \<and> rd16 b 2 = of_nat n
     \<and> (\<forall>i<length es. slot b n i (osum (take i es)) (es ! i))"

text \<open>
  The six writes of \<open>nodeAppendKV\<close> for entry \<open>i\<close> at offset \<open>off\<close>: the pointer, the two
  lengths, the key, the value, and the offset of the next entry.
\<close>

definition appended :: "BNode \<Rightarrow> nat \<Rightarrow> nat \<Rightarrow> nat \<Rightarrow> entry \<Rightarrow> BNode" where
  "appended b n i off e =
     (let pos = 4 + 10 * n + off;
          b1 = write_at b (4 + 8 * i) (le_encode 8 (fst e));
          b2 = write_at b1 pos (le_encode 2 (of_nat (length (fst (snd e))) :: u16));
          b3 = write_at b2 (pos + 2) (le_encode 2 (of_nat (length (snd (snd e))) :: u16));
          b4 = write_at b3 (pos + 4) (fst (snd e));
          b5 = write_at b4 (pos + 4 + length (fst (snd e))) (snd (snd e))
      in write_at b5 (4 + 8 * n + 2 * i) (le_encode 2 (of_nat (off + kv_size e) :: u16)))"

section \<open>Example nodes\<close>

text \<open>A leaf of three entries: the sentinel, \<open>("a", "x")\<close> and \<open>("c", "y")\<close>.\<close>

definition ex_leaf :: BNode where
  "ex_leaf = [1,0, 3,0,
     0,0,0,0,0,0,0,0, 0,0,0,0,0,0,0,0, 0,0,0,0,0,0,0,0,
     4,0, 10,0, 16,0,
     0,0,0,0, 1,0,1,0,0x61,0x78, 1,0,1,0,0x63,0x79]"


text \<open>A node of three entries with the keys \<open>"b"\<close>, \<open>"a"\<close>, \<open>"c"\<close>: ascending from index 1
  on, but entry 0 is above entry 1.\<close>

definition ex_unsorted :: BNode where
  "ex_unsorted = [1,0, 3,0,
     0,0,0,0,0,0,0,0, 0,0,0,0,0,0,0,0, 0,0,0,0,0,0,0,0,
     5,0, 10,0, 15,0,
     1,0,0,0,0x62, 1,0,0,0,0x61, 1,0,0,0,0x63]"

text \<open>An inner node of three entries with the child pointers 1, 2, 3 and the keys
  \<open>""\<close>, \<open>"a"\<close>, \<open>"c"\<close>.\<close>

definition ex_inner :: BNode where
  "ex_inner = [2,0, 3,0,
     1,0,0,0,0,0,0,0, 2,0,0,0,0,0,0,0, 3,0,0,0,0,0,0,0,
     4,0, 9,0, 14,0,
     0,0,0,0, 1,0,0,0,0x61, 1,0,0,0,0x63]"

text \<open>A tree over a host that keeps its pages in a function, returns \<open>ex_leaf\<close> for every
  page number and allocates page 100.\<close>

definition ex_tree :: "(u64 \<Rightarrow> BNode) BTree" where
  "ex_tree = \<lparr>root = 7, get = (\<lambda>h p. h p), new = (\<lambda>h page. (100, h(100 := page))),
     del = (\<lambda>h p. h), host = (\<lambda>p. ex_leaf), calls = []\<rparr>"



text \<open>A tree with no root page yet, over a host that allocates page 100.\<close>

definition ex_empty_tree :: "(u64 \<Rightarrow> BNode) BTree" where
  "ex_empty_tree = \<lparr>root = 0, get = (\<lambda>h p. h p), new = (\<lambda>h page. (100, h(100 := page))),
     del = (\<lambda>h p. h), host = (\<lambda>p. []), calls = []\<rparr>"

section \<open>Facts about words and byte strings\<close>

lemma u16_bound: "unat (w :: u16) < 65536"
  using unsigned_less [of w, where ?'a = nat] by simp




lemma slice_from_Uint16:
  "slice_from node p \<bind> Uint16 =
     (if p + 2 \<le> length node then Some (le_decode (take 2 (drop p node))) else None)"
  by (auto simp: slice_from_def slice_def Uint16_def)





section \<open>The codec's position arithmetic\<close>

text \<open>
  Claim C7. In a buffer whose header holds \<open>n\<close> entries, and for an index \<open>i \<le> n\<close>:
  \<open>kvPos(i)\<close> is \<open>HEADER + 10 * n + off(i)\<close> in 16-bit arithmetic (and faults exactly when
  \<open>getOffset(i)\<close> does); \<open>off(0)\<close> is 0 and \<open>off(i)\<close> for \<open>i \<ge> 1\<close> is the 16-bit
  little-endian cell \<open>i - 1\<close> of the offset table, which starts at \<open>HEADER + 8 * n\<close>;
  \<open>nbytes\<close> is \<open>kvPos(n)\<close>. When the buffer holds the whole offset table, both reads
  return, and the sum is the exact one as long as it stays below \<open>2^16\<close>.
\<close>

theorem kvPos_layout:
  assumes "nkeys node = Some n" and "i \<le> n"
  shows "kvPos node i = map_option (\<lambda>off. HEADER + 10 * n + off) (getOffset node i)
       \<and> getOffset node 0 = Some 0
       \<and> (i \<noteq> 0 \<longrightarrow>
            getOffset node i = slice_from node (unat (HEADER + 8 * n + 2 * (i - 1))) \<bind> Uint16)
       \<and> nbytes node = kvPos node n
       \<and> (4 + 10 * unat n \<le> length node \<and> length node < 65536 \<longrightarrow>
            (\<exists>off. getOffset node i = Some off \<and> kvPos node i = Some (HEADER + 10 * n + off)
               \<and> (4 + 10 * unat n + unat off < 65536 \<longrightarrow>
                    unat (HEADER + 10 * n + off) = 4 + 10 * unat n + unat off)))"
proof (intro conjI impI)
  show "kvPos node i = map_option (\<lambda>off. HEADER + 10 * n + off) (getOffset node i)"
    using assms by (cases "getOffset node i") (simp_all add: kvPos_def assert_def HEADER_def)
  show "getOffset node 0 = Some 0"
    by (simp add: getOffset_def)
  show "getOffset node i = slice_from node (unat (HEADER + 8 * n + 2 * (i - 1))) \<bind> Uint16"
    if "i \<noteq> 0"
    using assms that by (simp add: getOffset_def HEADER_def)
  show "nbytes node = kvPos node n"
    using assms by (simp add: nbytes_def)
next
  assume fit: "4 + 10 * unat n \<le> length node \<and> length node < 65536"
  have kv: "kvPos node i = map_option (\<lambda>off. HEADER + 10 * n + off) (getOffset node i)"
    using assms by (cases "getOffset node i") (simp_all add: kvPos_def assert_def HEADER_def)
  have "\<exists>off. getOffset node i = Some off"
  proof (cases "i = 0")
    case True
    then show ?thesis by (simp add: getOffset_def)
  next
    case False
    have le: "unat i \<le> unat n"
      using assms(2) by (simp add: word_le_nat_alt)
    have pos: "0 < unat i"
      using False by (simp add: unat_gt_0)
    have "unat (4 + 8 * n + 2 * (i - 1)) = 4 + 8 * unat n + 2 * (unat i - 1)"
      using fit le pos False by (simp add: unat_word_ariths unat_minus_one)
    moreover have "4 + 8 * unat n + 2 * (unat i - 1) + 2 \<le> length node"
      using fit le pos by linarith
    ultimately have "unat (4 + 8 * n + 2 * (i - 1)) + 2 \<le> length node"
      by (simp only:)
    then show ?thesis
      using assms False by (simp add: getOffset_def slice_from_Uint16)
  qed
  then obtain off where off: "getOffset node i = Some off" ..
  have "4 + 10 * unat n + unat off < 65536 \<longrightarrow>
        unat (HEADER + 10 * n + off) = 4 + 10 * unat n + unat off"
    by (simp add: HEADER_def unat_word_ariths)
  with off kv show "\<exists>off. getOffset node i = Some off
      \<and> kvPos node i = Some (HEADER + 10 * n + off)
      \<and> (4 + 10 * unat n + unat off < 65536 \<longrightarrow>
           unat (HEADER + 10 * n + off) = 4 + 10 * unat n + unat off)"
    by simp
qed

theorem kvPos_layout_witness:
  "nkeys ex_leaf = Some 3 \<and> (2 :: u16) \<le> 3
     \<and> getOffset ex_leaf 2 = Some 10 \<and> kvPos ex_leaf 2 = Some 44
     \<and> kvPos ex_leaf 2 = map_option (\<lambda>off. HEADER + 10 * 3 + off) (getOffset ex_leaf 2)
     \<and> nbytes ex_leaf = kvPos ex_leaf 3"
proof -
  have n: "nkeys ex_leaf = Some 3"
    by code_simp
  have i: "(2 :: u16) \<le> 3"
    by simp
  have v: "getOffset ex_leaf 2 = Some 10" "kvPos ex_leaf 2 = Some 44"
    by code_simp+
  from kvPos_layout [OF n i]
  have "kvPos ex_leaf 2 = map_option (\<lambda>off. HEADER + 10 * 3 + off) (getOffset ex_leaf 2)"
    and "nbytes ex_leaf = kvPos ex_leaf 3"
    by blast+
  with n i v show ?thesis
    by blast
qed

section \<open>Descent\<close>





text \<open>
  Claim C10. In a node of \<open>n \<ge> 1\<close> entries whose entry-0 key compares above the search
  key, \<open>nodeLookupLE\<close> returns \<open>0 - 1\<close> in 16-bit arithmetic, which is 65535 and not
  below \<open>n\<close>: the function does not check its result against \<open>nkeys\<close>.
\<close>

theorem nodeLookupLE_below_first:
  assumes "nkeys node = Some n" and "1 \<le> n" and "getKey node 0 = Some k0"
    and "bytes_Compare k0 key > 0"
  shows "nodeLookupLE node key = Some (0 - 1) \<and> (0 - 1 :: u16) = 65535 \<and> \<not> (65535 < n)"
proof -
  have "0 < n"
    using assms(2) by unat_arith
  then have "nodeLookupLE_loop node key n 0 = Some (0 - 1)"
    using assms(3,4) by (subst nodeLookupLE_loop.simps) simp
  moreover have "\<not> (65535 < n)"
    using u16_bound [of n] by (simp add: word_less_nat_alt)
  ultimately show ?thesis
    using assms(1) by (simp add: nodeLookupLE_def)
qed

theorem nodeLookupLE_below_first_witness:
  "nkeys ex_unsorted = Some 3 \<and> (1 :: u16) \<le> 3 \<and> getKey ex_unsorted 0 = Some [0x62]
     \<and> bytes_Compare [0x62] [0x61] > 0
     \<and> nodeLookupLE ex_unsorted [0x61] = Some 65535 \<and> \<not> ((65535 :: u16) < 3)"
proof -
  have n: "nkeys ex_unsorted = Some 3" and k: "getKey ex_unsorted 0 = Some [0x62]"
    by code_simp+
  have le: "(1 :: u16) \<le> 3" and cmp: "bytes_Compare [0x62] [0x61] > 0"
    by simp_all
  from nodeLookupLE_below_first [OF n le k cmp] n k show ?thesis
    by simp
qed

section \<open>The merge policy\<close>

text \<open>
  Claim C6. For an inner node of \<open>n\<close> entries, a child index \<open>idx < n\<close> and an updated
  child of \<open>ub\<close> bytes: \<open>shouldMerge\<close> returns no-merge \<open>(0, nil)\<close> when \<open>ub\<close> exceeds
  \<open>BTREE_PAGE_SIZE / 4\<close>, without reading a sibling. Otherwise it reads the left sibling
  (when \<open>idx > 0\<close>) and returns \<open>(-1, sibling)\<close> if \<open>sibling.nbytes + ub - HEADER\<close>, in 16-bit
  arithmetic, is at most \<open>BTREE_PAGE_SIZE\<close>; only when there is no left sibling or it does
  not fit does it read the right sibling (when \<open>idx + 1 < n\<close>) and return \<open>(+1, sibling)\<close>
  under the same test; otherwise it returns no-merge. The 16-bit sum is the exact one
  whenever the sibling has at least \<open>HEADER\<close> bytes and the sum stays below \<open>2^16\<close>.
\<close>

theorem shouldMerge_policy:
  assumes "nkeys node = Some n" and "idx < n" and "nbytes updated = Some ub"
    and "unat ub \<le> BTREE_PAGE_SIZE div 4 \<and> 0 < idx \<longrightarrow>
           getPtr node (idx - 1) = Some lp \<and> nbytes (tree_get tree lp) = Some lb"
    and "unat ub \<le> BTREE_PAGE_SIZE div 4
           \<and> \<not> (0 < idx \<and> unat (lb + ub - HEADER) \<le> BTREE_PAGE_SIZE) \<and> idx + 1 < n \<longrightarrow>
           getPtr node (idx + 1) = Some rp \<and> nbytes (tree_get tree rp) = Some rb"
  shows "shouldMerge tree node idx updated = Some
          (if unat ub > BTREE_PAGE_SIZE div 4 then (0, [])
           else if 0 < idx \<and> unat (lb + ub - HEADER) \<le> BTREE_PAGE_SIZE
             then (- 1, tree_get tree lp)
           else if idx + 1 < n \<and> unat (rb + ub - HEADER) \<le> BTREE_PAGE_SIZE
             then (1, tree_get tree rp)
           else (0, []))
       \<and> (\<forall>sb. HEADER \<le> sb \<and> unat sb + unat ub < 65536 \<longrightarrow>
             unat (sb + ub - HEADER) = unat sb + unat ub - 4)"
proof
  have right: "shouldMerge_right tree node idx updated = Some
      (if idx + 1 < n \<and> unat (rb + ub - HEADER) \<le> BTREE_PAGE_SIZE then (1, tree_get tree rp)
       else (0, []))"
    if "unat ub \<le> BTREE_PAGE_SIZE div 4"
      and "\<not> (0 < idx \<and> unat (lb + ub - HEADER) \<le> BTREE_PAGE_SIZE)"
    using assms(1,3,5) that by (simp add: shouldMerge_right_def Let_def)
  show "shouldMerge tree node idx updated = Some
          (if unat ub > BTREE_PAGE_SIZE div 4 then (0, [])
           else if 0 < idx \<and> unat (lb + ub - HEADER) \<le> BTREE_PAGE_SIZE
             then (- 1, tree_get tree lp)
           else if idx + 1 < n \<and> unat (rb + ub - HEADER) \<le> BTREE_PAGE_SIZE
             then (1, tree_get tree rp)
           else (0, []))"
  proof (cases "unat ub > BTREE_PAGE_SIZE div 4")
    case True
    then show ?thesis
      using assms(3) by (simp add: shouldMerge_def)
  next
    case small: False
    show ?thesis
    proof (cases "0 < idx \<and> unat (lb + ub - HEADER) \<le> BTREE_PAGE_SIZE")
      case True
      then show ?thesis
        using assms(3,4) small by (simp add: shouldMerge_def Let_def)
    next
      case False
      with small have "shouldMerge_right tree node idx updated = Some
          (if idx + 1 < n \<and> unat (rb + ub - HEADER) \<le> BTREE_PAGE_SIZE
           then (1, tree_get tree rp) else (0, []))"
        by (intro right) simp_all
      then show ?thesis
        using assms(3,4) small False by (auto simp: shouldMerge_def Let_def)
    qed
  qed
  show "\<forall>sb. HEADER \<le> sb \<and> unat sb + unat ub < 65536 \<longrightarrow>
             unat (sb + ub - HEADER) = unat sb + unat ub - 4"
  proof (intro allI impI)
    fix sb
    assume h: "HEADER \<le> sb \<and> unat sb + unat ub < 65536"
    then have "unat (sb + ub) = unat sb + unat ub"
      by (simp add: unat_word_ariths)
    moreover have "HEADER \<le> sb + ub"
      using h by (simp add: word_le_nat_alt unat_word_ariths HEADER_def)
    ultimately show "unat (sb + ub - HEADER) = unat sb + unat ub - 4"
      by (simp add: unat_sub HEADER_def)
  qed
qed

theorem shouldMerge_policy_witness:
  "nkeys ex_inner = Some 3 \<and> (1 :: u16) < 3 \<and> nbytes ex_leaf = Some 50
     \<and> getPtr ex_inner 0 = Some 1 \<and> nbytes (tree_get ex_tree 1) = Some 50
     \<and> unat (50 + 50 - HEADER) \<le> BTREE_PAGE_SIZE
     \<and> shouldMerge ex_tree ex_inner 1 ex_leaf = Some (- 1, tree_get ex_tree 1)"
proof -
  have n: "nkeys ex_inner = Some 3" and ub: "nbytes ex_leaf = Some 50"
    and p: "getPtr ex_inner 0 = Some 1" and lb: "nbytes (tree_get ex_tree 1) = Some 50"
    by code_simp+
  have i: "(1 :: u16) < 3"
    by simp
  have fit: "unat (50 + 50 - HEADER) \<le> BTREE_PAGE_SIZE"
    by (simp add: HEADER_def BTREE_PAGE_SIZE_def)
  have l: "unat (50 :: u16) \<le> BTREE_PAGE_SIZE div 4 \<and> 0 < (1 :: u16) \<longrightarrow>
      getPtr ex_inner (1 - 1) = Some 1 \<and> nbytes (tree_get ex_tree 1) = Some 50"
    using p lb by simp
  have r: "unat (50 :: u16) \<le> BTREE_PAGE_SIZE div 4
      \<and> \<not> (0 < (1 :: u16) \<and> unat (50 + 50 - HEADER) \<le> BTREE_PAGE_SIZE) \<and> (1 :: u16) + 1 < 3 \<longrightarrow>
      getPtr ex_inner (1 + 1) = Some 0 \<and> nbytes (tree_get ex_tree 0) = Some 0"
    using fit by simp
  have "shouldMerge ex_tree ex_inner 1 ex_leaf = Some (- 1, tree_get ex_tree 1)"
    using shouldMerge_policy [OF n i ub l r] fit
    by (simp add: BTREE_PAGE_SIZE_def)
  with n i ub p lb fit show ?thesis
    by blast
qed

section \<open>Insert: the length limits\<close>

text \<open>
  Claim C5. When the key is longer than \<open>BTREE_MAX_KEY_SIZE\<close> or the value longer than
  \<open>BTREE_MAX_VAL_SIZE\<close>, \<open>Insert\<close> returns the error \<open>OVERSIZE_KEY\<close> or \<open>OVERSIZE_VAL\<close>
  and the tree is the one it was given: same root, same host state, no allocation and no
  free recorded. No other path of \<open>Insert\<close> returns an error.
\<close>

theorem Insert_oversize:
  "(BTREE_MAX_KEY_SIZE < length key \<or> BTREE_MAX_VAL_SIZE < length val \<longrightarrow>
      (\<exists>e. Insert tree key val = Some (Some e, tree)
         \<and> (e = OVERSIZE_KEY \<or> e = OVERSIZE_VAL)))
   \<and> (\<forall>e t. Insert tree key val = Some (Some e, t) \<longrightarrow>
        (BTREE_MAX_KEY_SIZE < length key \<or> BTREE_MAX_VAL_SIZE < length val) \<and> t = tree)"
  by (auto simp: Insert_def checkLimit_def Let_def
      split: option.splits if_splits Option.bind_splits prod.splits list.splits)

theorem Insert_oversize_witness:
  "BTREE_MAX_KEY_SIZE < length (replicate 1001 (0 :: byte))
     \<and> (\<exists>e. Insert ex_tree (replicate 1001 0) [0x78] = Some (Some e, ex_tree)
          \<and> (e = OVERSIZE_KEY \<or> e = OVERSIZE_VAL))
     \<and> calls ex_tree = []"
proof -
  have big: "BTREE_MAX_KEY_SIZE < length (replicate 1001 (0 :: byte))"
    by (simp add: BTREE_MAX_KEY_SIZE_def)
  have "calls ex_tree = []"
    by (simp add: ex_tree_def)
  with Insert_oversize [of "replicate 1001 0" "[0x78]" ex_tree] big show ?thesis
    by blast
qed

section \<open>Reading and writing the bytes of a node\<close>

lemma length_le_encode [simp]: "length (le_encode n w) = n"
  by (induction n arbitrary: w) simp_all

lemma le_decode_encode: "le_decode (le_encode n w) = take_bit (8 * n) w"
proof (induction n arbitrary: w)
  case 0
  then show ?case by simp
next
  case (Suc n)
  have "le_decode (le_encode (Suc n) w)
      = ucast (ucast w :: byte) OR push_bit 8 (take_bit (8 * n) (drop_bit 8 w))"
    by (simp add: Suc)
  also have "\<dots> = take_bit (8 * Suc n) w"
  proof (rule bit_word_eqI)
    fix k assume "k < LENGTH('a)"
    then show "bit (ucast (ucast w :: byte) OR push_bit 8 (take_bit (8 * n) (drop_bit 8 w))) k
        \<longleftrightarrow> bit (take_bit (8 * Suc n) w) k"
      by (cases "k < 8") (auto simp: bit_simps)
  qed
  finally show ?case .
qed

lemma le_decode_encode16: "le_decode (le_encode 2 v) = v" for v :: u16
proof -
  have "take_bit (8 * 2) v = v"
    by (rule take_bit_word_eq_self) simp
  then show ?thesis
    by (simp only: le_decode_encode)
qed

lemma le_decode_encode64: "le_decode (le_encode 8 v) = v" for v :: u64
proof -
  have "take_bit (8 * 8) v = v"
    by (rule take_bit_word_eq_self) simp
  then show ?thesis
    by (simp only: le_decode_encode)
qed

lemma length_write_at [simp]:
  "p + length bs \<le> length b \<Longrightarrow> length (write_at b p bs) = length b"
  by (simp add: write_at_def)

lemma read_write_same:
  assumes "p + length bs \<le> length b"
  shows "take (length bs) (drop p (write_at b p bs)) = bs"
  using assms by (simp add: write_at_def)

lemma read_write_below:
  assumes "p + length bs \<le> length b" and "q + m \<le> p"
  shows "take m (drop q (write_at b p bs)) = take m (drop q b)"
proof -
  have "take m (drop q (take p b @ bs @ drop (p + length bs) b)) = take m (drop q (take p b))"
    using assms by simp
  also have "\<dots> = take m (drop q b)"
    using assms by (simp add: drop_take)
  finally show ?thesis by (simp add: write_at_def)
qed

lemma read_write_above:
  assumes "p + length bs \<le> length b" and "p + length bs \<le> q"
  shows "take m (drop q (write_at b p bs)) = take m (drop q b)"
proof -
  have "drop q (take p b @ bs @ drop (p + length bs) b)
      = drop (q - p - length bs) (drop (p + length bs) b)"
    using assms by simp
  also have "\<dots> = drop q b"
    using assms by simp
  finally show ?thesis by (simp add: write_at_def)
qed

lemma read_write_frame:
  assumes "p + length bs \<le> length b" and "q + m \<le> p \<or> p + length bs \<le> q"
  shows "take m (drop q (write_at b p bs)) = take m (drop q b)"
  using assms read_write_below read_write_above by blast

lemma rd16_write_frame:
  "p + length bs \<le> length b \<Longrightarrow> q + 2 \<le> p \<or> p + length bs \<le> q \<Longrightarrow>
     rd16 (write_at b p bs) q = rd16 b q"
  by (simp only: rd16_def read_write_frame)

lemma rd64_write_frame:
  "p + length bs \<le> length b \<Longrightarrow> q + 8 \<le> p \<or> p + length bs \<le> q \<Longrightarrow>
     rd64 (write_at b p bs) q = rd64 b q"
  by (simp only: rd64_def read_write_frame)

lemma rd16_write_same:
  assumes "p + 2 \<le> length b"
  shows "rd16 (write_at b p (le_encode 2 v)) p = v"
proof -
  have "take (length (le_encode 2 v :: byte list)) (drop p (write_at b p (le_encode 2 v)))
      = le_encode 2 v"
    by (rule read_write_same) (simp only: length_le_encode assms)
  then show ?thesis
    by (simp only: rd16_def length_le_encode le_decode_encode16)
qed

lemma rd64_write_same:
  assumes "p + 8 \<le> length b"
  shows "rd64 (write_at b p (le_encode 8 v)) p = v"
proof -
  have "take (length (le_encode 8 v :: byte list)) (drop p (write_at b p (le_encode 8 v)))
      = le_encode 8 v"
    by (rule read_write_same) (simp only: length_le_encode assms)
  then show ?thesis
    by (simp only: rd64_def length_le_encode le_decode_encode64)
qed

lemma unat_u16_eq: "w = of_nat k \<Longrightarrow> k < 65536 \<Longrightarrow> unat (w :: u16) = k"
  by (simp add: unat_of_nat)

lemma of_nat_u16_inj: "a < 65536 \<Longrightarrow> b < 65536 \<Longrightarrow> (of_nat a :: u16) = of_nat b \<longleftrightarrow> a = b"
  by (metis unat_u16_eq)

lemma of_nat_u16_less: "a < 65536 \<Longrightarrow> b < 65536 \<Longrightarrow> (of_nat a :: u16) < of_nat b \<longleftrightarrow> a < b"
  by (simp add: word_less_nat_alt unat_of_nat)

lemma of_nat_u16_le: "a < 65536 \<Longrightarrow> b < 65536 \<Longrightarrow> (of_nat a :: u16) \<le> of_nat b \<longleftrightarrow> a \<le> b"
  by (simp add: word_le_nat_alt unat_of_nat)

text \<open>The accessors of the codec, as reads at byte positions.\<close>

lemma nkeys_raw: "4 \<le> length b \<Longrightarrow> nkeys b = Some (rd16 b 2)"
  by (simp add: nkeys_def slice_def Uint16_def rd16_def)

lemma btype_raw: "2 \<le> length b \<Longrightarrow> btype b = Some (rd16 b 0)"
  by (simp add: btype_def slice_def Uint16_def rd16_def)

lemma read16_raw: "p + 2 \<le> length b \<Longrightarrow> slice_from b p \<bind> Uint16 = Some (rd16 b p)"
  by (simp add: slice_from_def slice_def Uint16_def rd16_def)

lemma read64_raw: "p + 8 \<le> length b \<Longrightarrow> slice_from b p \<bind> Uint64 = Some (rd64 b p)"
  by (simp add: slice_from_def slice_def Uint64_def rd64_def)

lemma PutUint16_raw:
  "p + 2 \<le> length b \<Longrightarrow> PutUint16 b p (length b) v = Some (write_at b p (le_encode 2 v))"
  by (simp add: PutUint16_def)

lemma PutUint64_raw:
  "p + 8 \<le> length b \<Longrightarrow> PutUint64 b p (length b) v = Some (write_at b p (le_encode 8 v))"
  by (simp add: PutUint64_def)

lemma copy_raw:
  "p + length src \<le> length b \<Longrightarrow> copy b p src = Some (write_at b p src)"
  by (simp add: copy_def)


lemma osum_Nil [simp]: "osum [] = 0"
  by (simp add: osum_def)

lemma osum_append [simp]: "osum (xs @ ys) = osum xs + osum ys"
  by (simp add: osum_def)

lemma osum_single [simp]: "osum [e] = kv_size e"
  by (simp add: osum_def)

lemma osum_take_Suc: "i < length es \<Longrightarrow> osum (take (Suc i) es) = osum (take i es) + kv_size (es ! i)"
  by (simp add: take_Suc_conv_app_nth)

lemma osum_take_drop: "osum (take i es) + osum (drop i es) = osum es"
  using osum_append [of "take i es" "drop i es"] by simp

lemma osum_take_le: "osum (take i es) \<le> osum es"
  using osum_take_drop [of i es] by linarith

lemma osum_slot_le: "i < length es \<Longrightarrow> osum (take i es) + kv_size (es ! i) \<le> osum es"
  using osum_take_le [of "Suc i" es] by (simp add: osum_take_Suc)

lemma kv_size_ge: "4 \<le> kv_size e"
  by (simp add: kv_size_def)

lemma slot_write_frame:
  assumes "slot b n i off e" and "q + length bs \<le> length b"
    and "q + length bs \<le> 4 + 8 * i \<or> 4 + 8 * i + 8 \<le> q"
    and "q + length bs \<le> 4 + 8 * n + 2 * i \<or> 4 + 8 * n + 2 * i + 2 \<le> q"
    and "q + length bs \<le> 4 + 10 * n + off \<or> 4 + 10 * n + off + kv_size e \<le> q"
  shows "slot (write_at b q bs) n i off e"
proof -
  have a: "rd64 (write_at b q bs) (4 + 8 * i) = rd64 b (4 + 8 * i)"
    using assms(2,3) by (intro rd64_write_frame) auto
  have c: "rd16 (write_at b q bs) (4 + 8 * n + 2 * i) = rd16 b (4 + 8 * n + 2 * i)"
    using assms(2,4) by (intro rd16_write_frame) auto
  have k1: "rd16 (write_at b q bs) (4 + 10 * n + off) = rd16 b (4 + 10 * n + off)"
    using assms(2,5) by (intro rd16_write_frame) (auto simp: kv_size_def)
  have k2: "rd16 (write_at b q bs) (4 + 10 * n + off + 2) = rd16 b (4 + 10 * n + off + 2)"
    using assms(2,5) by (intro rd16_write_frame) (auto simp: kv_size_def)
  have k3: "take (length (fst (snd e))) (drop (4 + 10 * n + off + 4) (write_at b q bs))
      = take (length (fst (snd e))) (drop (4 + 10 * n + off + 4) b)"
    using assms(2,5) by (intro read_write_frame) (auto simp: kv_size_def)
  have k4: "take (length (snd (snd e)))
        (drop (4 + 10 * n + off + 4 + length (fst (snd e))) (write_at b q bs))
      = take (length (snd (snd e))) (drop (4 + 10 * n + off + 4 + length (fst (snd e))) b)"
    using assms(2,5) by (intro read_write_frame) (auto simp: kv_size_def)
  from assms(1) show ?thesis
    unfolding slot_def a c k1 k2 k3 k4 .
qed

lemma layout_write_frame:
  assumes "layout b n es" and "q + length bs \<le> length b"
    and "4 + 8 * length es \<le> q"
    and "q + length bs \<le> 4 + 8 * n \<or> 4 + 8 * n + 2 * length es \<le> q"
    and "q + length bs \<le> 4 + 10 * n \<or> 4 + 10 * n + osum es \<le> q"
  shows "layout (write_at b q bs) n es"
proof -
  have len: "length (write_at b q bs) = length b"
    using assms(2) by simp
  have hdr: "rd16 (write_at b q bs) 2 = rd16 b 2"
    using assms(2,3) by (intro rd16_write_frame) auto
  have "slot (write_at b q bs) n i (osum (take i es)) (es ! i)" if i: "i < length es" for i
  proof (rule slot_write_frame)
    show "slot b n i (osum (take i es)) (es ! i)"
      using assms(1) i by (simp add: layout_def)
    show "q + length bs \<le> length b"
      by (fact assms(2))
    show "q + length bs \<le> 4 + 8 * i \<or> 4 + 8 * i + 8 \<le> q"
      using assms(3) i by auto
    show "q + length bs \<le> 4 + 8 * n + 2 * i \<or> 4 + 8 * n + 2 * i + 2 \<le> q"
      using assms(4) i by auto
    show "q + length bs \<le> 4 + 10 * n + osum (take i es)
        \<or> 4 + 10 * n + osum (take i es) + kv_size (es ! i) \<le> q"
      using assms(5) osum_slot_le [OF i] by auto
  qed
  with assms(1) len hdr show ?thesis
    by (simp add: layout_def)
qed

lemma layout_snoc:
  assumes "layout b n es" and "length es < n" and "4 + 10 * n + osum es + kv_size e \<le> length b"
    and "slot b n (length es) (osum es) e"
  shows "layout b n (es @ [e])"
proof -
  have "slot b n i (osum (take i (es @ [e]))) ((es @ [e]) ! i)" if "i < length (es @ [e])" for i
  proof (cases "i < length es")
    case True
    then show ?thesis
      using assms(1) by (simp add: layout_def nth_append)
  next
    case False
    with that have "i = length es" by simp
    then show ?thesis
      using assms(4) by simp
  qed
  with assms(1,2,3) show ?thesis
    by (simp add: layout_def)
qed


lemma getOffset_raw:
  assumes "idx \<noteq> 0" and "nkeys b = Some nk" and "unat (4 + 8 * nk + 2 * (idx - 1)) = c"
    and "c + 2 \<le> length b"
  shows "getOffset b idx = Some (rd16 b c)"
  using assms by (simp add: getOffset_def read16_raw)

lemma setOffset_raw:
  assumes "nkeys b = Some nk" and "unat (4 + 8 * nk + 2 * (idx - 1)) = c"
    and "c + 2 \<le> length b"
  shows "setOffset b idx v = Some (write_at b c (le_encode 2 v))"
  using assms by (simp add: setOffset_def PutUint16_raw)

lemma getPtr_raw:
  assumes "nkeys b = Some nk" and "idx < nk" and "unat (4 + 8 * idx) = c" and "c + 8 \<le> length b"
  shows "getPtr b idx = Some (rd64 b c)"
  using assms by (simp add: getPtr_def assert_def read64_raw)

lemma setPtr_raw:
  assumes "nkeys b = Some nk" and "idx < nk" and "unat (4 + 8 * idx) = c" and "c + 8 \<le> length b"
  shows "setPtr b idx v = Some (write_at b c (le_encode 8 v))"
  using assms by (simp add: setPtr_def assert_def PutUint64_raw)

lemma kvPos_raw:
  assumes "nkeys b = Some nk" and "idx \<le> nk" and "getOffset b idx = Some off"
  shows "kvPos b idx = Some (4 + 8 * nk + 2 * nk + off)"
  using assms by (simp add: kvPos_def assert_def)

lemma getKey_raw:
  assumes "nkeys b = Some nk" and "idx < nk" and "kvPos b idx = Some pos"
    and "unat pos = c" and "unat (pos + 4) = c + 4" and "c + 4 + unat (rd16 b c) \<le> length b"
  shows "getKey b idx = Some (take (unat (rd16 b c)) (drop (c + 4) b))"
proof -
  have "slice_from b c \<bind> Uint16 = Some (rd16 b c)"
    using assms(6) by (intro read16_raw) simp
  then have "\<exists>s. slice_from b c = Some s \<and> Uint16 s = Some (rd16 b c)"
    by (cases "slice_from b c") simp_all
  then obtain s where s: "slice_from b c = Some s" "Uint16 s = Some (rd16 b c)"
    by blast
  have s2: "slice_from b (c + 4) = Some (drop (c + 4) b)"
    using assms(6) by (simp add: slice_from_def slice_def)
  have s3: "slice (drop (c + 4) b) 0 (unat (rd16 b c)) = Some (take (unat (rd16 b c)) (drop (c + 4) b))"
    using assms(6) by (simp add: slice_def)
  show ?thesis
    using assms(1-5) s s2 s3 by (simp add: getKey_def assert_def)
qed

lemma getVal_raw:
  assumes "nkeys b = Some nk" and "idx < nk" and "kvPos b idx = Some pos"
    and "unat pos = c" and "unat (pos + 2) = c + 2"
    and "unat (pos + 4 + rd16 b c) = c + 4 + unat (rd16 b c)"
    and "c + 4 + unat (rd16 b c) + unat (rd16 b (c + 2)) \<le> length b"
  shows "getVal b idx = Some (take (unat (rd16 b (c + 2))) (drop (c + 4 + unat (rd16 b c)) b))"
proof -
  have "slice_from b c \<bind> Uint16 = Some (rd16 b c)"
    using assms(7) by (intro read16_raw) simp
  then have "\<exists>s. slice_from b c = Some s \<and> Uint16 s = Some (rd16 b c)"
    by (cases "slice_from b c") simp_all
  then obtain s where s: "slice_from b c = Some s" "Uint16 s = Some (rd16 b c)"
    by blast
  have "slice_from b (c + 2) \<bind> Uint16 = Some (rd16 b (c + 2))"
    using assms(7) by (intro read16_raw) simp
  then have "\<exists>s. slice_from b (c + 2) = Some s \<and> Uint16 s = Some (rd16 b (c + 2))"
    by (cases "slice_from b (c + 2)") simp_all
  then obtain t where t: "slice_from b (c + 2) = Some t" "Uint16 t = Some (rd16 b (c + 2))"
    by blast
  have s2: "slice_from b (c + 4 + unat (rd16 b c)) = Some (drop (c + 4 + unat (rd16 b c)) b)"
    using assms(7) by (simp add: slice_from_def slice_def)
  have s3: "slice (drop (c + 4 + unat (rd16 b c)) b) 0 (unat (rd16 b (c + 2)))
      = Some (take (unat (rd16 b (c + 2))) (drop (c + 4 + unat (rd16 b c)) b))"
    using assms(7) by (simp add: slice_def)
  show ?thesis
    using assms(1-6) s t s2 s3 by (simp add: getVal_def assert_def)
qed

lemma layout_nkeys: "layout b n es \<Longrightarrow> nkeys b = Some (of_nat n)"
  by (simp add: layout_def nkeys_raw)

lemma getOffset_layout:
  assumes "layout b n es" and "j \<le> length es"
  shows "getOffset b (of_nat j) = Some (of_nat (osum (take j es)))"
proof (cases j)
  case 0
  then show ?thesis
    by (simp add: getOffset_def)
next
  case (Suc i)
  have bounds: "4 + 10 * n \<le> length b" "length b < 65536" "length es \<le> n"
    using assms(1) by (simp_all add: layout_def)
  have i: "i < length es"
    using assms(2) Suc by simp
  have nz: "(of_nat j :: u16) \<noteq> 0"
    using of_nat_u16_inj [of j 0] bounds assms(2) Suc by simp
  have cell: "unat (4 + 8 * (of_nat n :: u16) + 2 * (of_nat j - 1)) = 4 + 8 * n + 2 * i"
    using bounds i Suc by (intro unat_u16_eq) simp_all
  have fit: "4 + 8 * n + 2 * i + 2 \<le> length b"
    using bounds i by linarith
  have "slot b n i (osum (take i es)) (es ! i)"
    using assms(1) i by (simp add: layout_def)
  then have "rd16 b (4 + 8 * n + 2 * i) = of_nat (osum (take j es))"
    using i Suc by (simp add: slot_def osum_take_Suc)
  with getOffset_raw [OF nz layout_nkeys [OF assms(1)] cell fit] show ?thesis
    by simp
qed

lemma kvPos_layout_entries:
  assumes "layout b n es" and "j \<le> length es"
  shows "kvPos b (of_nat j) = Some (of_nat (4 + 10 * n + osum (take j es)))"
proof -
  have bounds: "4 + 10 * n \<le> length b" "length b < 65536" "length es \<le> n"
    using assms(1) by (simp_all add: layout_def)
  have le: "(of_nat j :: u16) \<le> of_nat n"
    using bounds assms(2) by (simp add: of_nat_u16_le)
  have "4 + 8 * (of_nat n :: u16) + 2 * of_nat n + of_nat (osum (take j es))
      = of_nat (4 + 10 * n + osum (take j es))"
    by simp
  with kvPos_raw [OF layout_nkeys [OF assms(1)] le getOffset_layout [OF assms]] show ?thesis
    by simp
qed

lemma drop_drop_eq: "b + a = c \<Longrightarrow> drop a (drop b x) = drop c x"
  by (auto simp: add.commute)

lemma split4: "take (2 + (2 + (K + V))) (drop pos x)
      = take 2 (drop pos x) @ take 2 (drop (pos + 2) x)
        @ take K (drop (pos + 4) x) @ take V (drop (pos + 4 + K) x)"
proof -
  have "take (2 + (2 + (K + V))) (drop pos x)
      = take 2 (drop pos x) @ take (2 + (K + V)) (drop 2 (drop pos x))"
    by (rule take_add)
  also have "take (2 + (K + V)) (drop 2 (drop pos x))
      = take 2 (drop 2 (drop pos x)) @ take (K + V) (drop 2 (drop 2 (drop pos x)))"
    by (rule take_add)
  also have "take (K + V) (drop 2 (drop 2 (drop pos x)))
      = take K (drop 2 (drop 2 (drop pos x))) @ take V (drop K (drop 2 (drop 2 (drop pos x))))"
    by (rule take_add)
  also have "drop 2 (drop pos x) = drop (pos + 2) x"
    by (rule drop_drop_eq) simp
  also have "drop 2 (drop (pos + 2) x) = drop (pos + 4) x"
    by (rule drop_drop_eq) simp
  also have "drop K (drop (pos + 4) x) = drop (pos + 4 + K) x"
    by (rule drop_drop_eq) simp
  finally show ?thesis .
qed

lemma nkeys_write_frame:
  assumes "4 \<le> q" and "q + length bs \<le> length b"
  shows "nkeys (write_at b q bs) = nkeys b"
proof -
  have "rd16 (write_at b q bs) 2 = rd16 b 2"
    using assms by (intro rd16_write_frame) auto
  then show ?thesis
    using assms by (simp add: nkeys_raw)
qed

lemma getOffset_write_frame:
  assumes "nkeys b = Some (of_nat n)" and "length b < 65536" and "4 + 10 * n \<le> length b"
    and "j \<le> n" and "4 \<le> q" and "q + length bs \<le> length b"
    and "j = 0 \<or> q + length bs \<le> 4 + 8 * n + 2 * (j - 1) \<or> 4 + 8 * n + 2 * (j - 1) + 2 \<le> q"
  shows "getOffset (write_at b q bs) (of_nat j) = getOffset b (of_nat j)"
proof (cases "j = 0")
  case True
  then show ?thesis
    by (simp add: getOffset_def)
next
  case False
  have nz: "(of_nat j :: u16) \<noteq> 0"
    using of_nat_u16_inj [of j 0] assms(2,3,4) False by simp
  have cell: "unat (4 + 8 * (of_nat n :: u16) + 2 * (of_nat j - 1)) = 4 + 8 * n + 2 * (j - 1)"
    using assms(2,3,4) False by (intro unat_u16_eq) (simp_all add: of_nat_diff)
  have fit: "4 + 8 * n + 2 * (j - 1) + 2 \<le> length b"
    using assms(3,4) False by simp
  have fit': "4 + 8 * n + 2 * (j - 1) + 2 \<le> length (write_at b q bs)"
    using fit assms(6) by simp
  have nk': "nkeys (write_at b q bs) = Some (of_nat n)"
    using nkeys_write_frame [OF assms(5,6)] assms(1) by simp
  have "rd16 (write_at b q bs) (4 + 8 * n + 2 * (j - 1)) = rd16 b (4 + 8 * n + 2 * (j - 1))"
    using assms(6,7) False by (intro rd16_write_frame) auto
  then show ?thesis
    using getOffset_raw [OF nz assms(1) cell fit] getOffset_raw [OF nz nk' cell fit']
    by simp
qed

lemma nodeAppendKV_raw:
  assumes len: "length b < 65536" and nk: "nkeys b = Some (of_nat n)" and room: "i < n"
    and off: "getOffset b (of_nat i) = Some (of_nat off)"
    and fit: "4 + 10 * n + off + (4 + length k + length v) \<le> length b"
  shows "nodeAppendKV b (of_nat i) p k v = Some (appended b n i off (p, k, v))"
    and "slot (appended b n i off (p, k, v)) n i off (p, k, v)"
    and "length (appended b n i off (p, k, v)) = length b"
    and "take 8 (drop (4 + 8 * i) (appended b n i off (p, k, v))) = le_encode 8 p"
    and "take (4 + length k + length v) (drop (4 + 10 * n + off) (appended b n i off (p, k, v)))
          = le_encode 2 (of_nat (length k) :: u16) @ le_encode 2 (of_nat (length v) :: u16) @ k @ v"
    and "\<And>q m. q + m \<le> 4 + 8 * i \<or> 4 + 8 * i + 8 \<le> q \<and> q + m \<le> 4 + 8 * n + 2 * i
            \<or> 4 + 8 * n + 2 * i + 2 \<le> q \<and> q + m \<le> 4 + 10 * n + off
            \<or> 4 + 10 * n + off + (4 + length k + length v) \<le> q \<Longrightarrow>
          take m (drop q (appended b n i off (p, k, v))) = take m (drop q b)"
proof -
  define pos where "pos = 4 + 10 * n + off"
  define L where "L = length b"
  define b1 where "b1 = write_at b (4 + 8 * i) (le_encode 8 p)"
  define b2 where "b2 = write_at b1 pos (le_encode 2 (of_nat (length k) :: u16))"
  define b3 where "b3 = write_at b2 (pos + 2) (le_encode 2 (of_nat (length v) :: u16))"
  define b4 where "b4 = write_at b3 (pos + 4) k"
  define b5 where "b5 = write_at b4 (pos + 4 + length k) v"
  define b6 where "b6 = write_at b5 (4 + 8 * n + 2 * i)
    (le_encode 2 (of_nat (off + kv_size (p, k, v)) :: u16))"
  have res: "appended b n i off (p, k, v) = b6"
    by (simp add: appended_def Let_def b6_def b5_def b4_def b3_def b2_def b1_def pos_def)
  have bounds: "L < 65536" "i < n" "pos + 4 + length k + length v \<le> L" "4 + 10 * n \<le> pos"
    "4 + 10 * n \<le> L"
    using len room fit by (simp_all add: L_def pos_def)
  have l1: "length b1 = L"
    using bounds by (simp add: b1_def L_def)
  have l2: "length b2 = L"
    using bounds l1 by (simp add: b2_def)
  have l3: "length b3 = L"
    using bounds l2 by (simp add: b3_def)
  have l4: "length b4 = L"
    using bounds l3 by (simp add: b4_def)
  have l5: "length b5 = L"
    using bounds l4 by (simp add: b5_def)
  have l6: "length b6 = L"
    using bounds l5 by (simp add: b6_def)
  have n1: "nkeys b1 = Some (of_nat n)"
    unfolding b1_def using bounds nk by (subst nkeys_write_frame) (simp_all add: L_def)
  have n2: "nkeys b2 = Some (of_nat n)"
    unfolding b2_def using bounds n1 l1 by (subst nkeys_write_frame) simp_all
  have n3: "nkeys b3 = Some (of_nat n)"
    unfolding b3_def using bounds n2 l2 by (subst nkeys_write_frame) simp_all
  have n4: "nkeys b4 = Some (of_nat n)"
    unfolding b4_def using bounds n3 l3 by (subst nkeys_write_frame) simp_all
  have n5: "nkeys b5 = Some (of_nat n)"
    unfolding b5_def using bounds n4 l4 by (subst nkeys_write_frame) simp_all
  have o1: "getOffset b1 (of_nat i) = Some (of_nat off)"
    unfolding b1_def using bounds off
    by (subst getOffset_write_frame [OF nk]) (auto simp: L_def)
  have o2: "getOffset b2 (of_nat i) = Some (of_nat off)"
    unfolding b2_def using bounds o1 l1
    by (subst getOffset_write_frame [OF n1]) auto
  have o3: "getOffset b3 (of_nat i) = Some (of_nat off)"
    unfolding b3_def using bounds o2 l2
    by (subst getOffset_write_frame [OF n2]) auto
  have o4: "getOffset b4 (of_nat i) = Some (of_nat off)"
    unfolding b4_def using bounds o3 l3
    by (subst getOffset_write_frame [OF n3]) auto
  have o5: "getOffset b5 (of_nat i) = Some (of_nat off)"
    unfolding b5_def using bounds o4 l4
    by (subst getOffset_write_frame [OF n4]) auto
  have idx_lt: "(of_nat i :: u16) < of_nat n"
    using bounds by (simp add: of_nat_u16_less)
  have idx_le: "(of_nat i :: u16) \<le> of_nat n"
    using bounds by (simp add: of_nat_u16_le)
  have ptr_pos: "unat (4 + 8 * (of_nat i :: u16)) = 4 + 8 * i"
    using bounds by (intro unat_u16_eq) simp_all
  have s1: "setPtr b (of_nat i) p = Some b1"
    unfolding b1_def using bounds
    by (intro setPtr_raw [OF nk idx_lt ptr_pos]) (simp add: L_def)
  have "4 + 8 * (of_nat n :: u16) + 2 * of_nat n + of_nat off = of_nat pos"
    by (simp add: pos_def)
  with kvPos_raw [OF n1 idx_le o1] have s2: "kvPos b1 (of_nat i) = Some (of_nat pos)"
    by simp
  have p0: "unat ((of_nat pos :: u16) + 0) = pos"
    using bounds by (intro unat_u16_eq) simp_all
  have p2: "unat ((of_nat pos :: u16) + 2) = pos + 2"
    using bounds by (intro unat_u16_eq) simp_all
  have p4: "unat ((of_nat pos :: u16) + 4) = pos + 4"
    using bounds by (intro unat_u16_eq) simp_all
  have p4k: "unat ((of_nat pos :: u16) + 4 + of_nat (length k)) = pos + 4 + length k"
    using bounds by (intro unat_u16_eq) simp_all
  have s3: "PutUint16 b1 (unat ((of_nat pos :: u16) + 0)) (length b1) (of_nat (length k)) = Some b2"
    unfolding p0 b2_def using bounds l1 by (intro PutUint16_raw) simp
  have s4: "PutUint16 b2 (unat ((of_nat pos :: u16) + 2)) (length b2) (of_nat (length v)) = Some b3"
    unfolding p2 b3_def using bounds l2 by (intro PutUint16_raw) simp
  have s5: "copy b3 (unat ((of_nat pos :: u16) + 4)) k = Some b4"
    unfolding p4 b4_def using bounds l3 by (intro copy_raw) simp
  have s6: "copy b4 (unat ((of_nat pos :: u16) + 4 + of_nat (length k))) v = Some b5"
    unfolding p4k b5_def using bounds l4 by (intro copy_raw) simp
  have cell: "unat (4 + 8 * (of_nat n :: u16) + 2 * (of_nat i + 1 - 1)) = 4 + 8 * n + 2 * i"
    using bounds by (intro unat_u16_eq) simp_all
  have val: "(of_nat off :: u16) + 4 + of_nat (length k + length v)
      = of_nat (off + kv_size (p, k, v))"
    by (simp add: kv_size_def)
  have s8: "setOffset b5 (of_nat i + 1) (of_nat off + 4 + of_nat (length k + length v))
      = Some b6"
    unfolding val b6_def using bounds l5
    by (intro setOffset_raw [OF n5 cell]) simp
  have run: "nodeAppendKV b (of_nat i) p k v = Some b6"
    by (simp only: nodeAppendKV_def s1 s2 s3 s4 s5 s6 o5 s8 Option.bind.simps)
  have c6: "rd16 b6 (4 + 8 * n + 2 * i) = of_nat (off + kv_size (p, k, v))"
    unfolding b6_def using bounds l5 by (intro rd16_write_same) simp
  have a1: "rd64 b1 (4 + 8 * i) = p"
    unfolding b1_def using bounds by (intro rd64_write_same) (simp add: L_def)
  have a6: "rd64 b6 (4 + 8 * i) = p"
    using bounds l1 l2 l3 l4 l5 a1
    by (simp add: b6_def b5_def b4_def b3_def b2_def rd64_write_frame)
  have k2: "rd16 b2 pos = of_nat (length k)"
    unfolding b2_def using bounds l1 by (intro rd16_write_same) simp
  have k6: "rd16 b6 pos = of_nat (length k)"
    using bounds l2 l3 l4 l5 k2
    by (simp add: b6_def b5_def b4_def b3_def rd16_write_frame)
  have v3: "rd16 b3 (pos + 2) = of_nat (length v)"
    unfolding b3_def using bounds l2 by (intro rd16_write_same) simp
  have v6: "rd16 b6 (pos + 2) = of_nat (length v)"
    using bounds l3 l4 l5 v3
    by (simp add: b6_def b5_def b4_def rd16_write_frame)
  have key4: "take (length k) (drop (pos + 4) b4) = k"
    unfolding b4_def using bounds l3 by (intro read_write_same) simp
  have key6: "take (length k) (drop (pos + 4) b6) = k"
    using bounds l4 l5 key4
    by (simp add: b6_def b5_def read_write_frame)
  have val5: "take (length v) (drop (pos + 4 + length k) b5) = v"
    unfolding b5_def using bounds l4 by (intro read_write_same) simp
  have val6: "take (length v) (drop (pos + 4 + length k) b6) = v"
    using bounds l5 val5
    by (simp add: b6_def read_write_frame)
  have sl: "slot b6 n i off (p, k, v)"
    using a6 c6 k6 v6 key6 val6 by (simp add: slot_def pos_def)
  have frame: "take m (drop q b6) = take m (drop q b)"
    if "q + m \<le> 4 + 8 * i \<or> 4 + 8 * i + 8 \<le> q \<and> q + m \<le> 4 + 8 * n + 2 * i
            \<or> 4 + 8 * n + 2 * i + 2 \<le> q \<and> q + m \<le> 4 + 10 * n + off
            \<or> 4 + 10 * n + off + (4 + length k + length v) \<le> q" for q m
  proof -
    have f1: "take m (drop q b1) = take m (drop q b)"
      unfolding b1_def using bounds that by (intro read_write_frame) (auto simp: L_def pos_def)
    have f2: "take m (drop q b2) = take m (drop q b1)"
      unfolding b2_def using bounds that l1 by (intro read_write_frame) (auto simp: pos_def)
    have f3: "take m (drop q b3) = take m (drop q b2)"
      unfolding b3_def using bounds that l2 by (intro read_write_frame) (auto simp: pos_def)
    have f4: "take m (drop q b4) = take m (drop q b3)"
      unfolding b4_def using bounds that l3 by (intro read_write_frame) (auto simp: pos_def)
    have f5: "take m (drop q b5) = take m (drop q b4)"
      unfolding b5_def using bounds that l4 by (intro read_write_frame) (auto simp: pos_def)
    have f6: "take m (drop q b6) = take m (drop q b5)"
      unfolding b6_def using bounds that l5 by (intro read_write_frame) (auto simp: pos_def)
    show ?thesis
      by (simp only: f1 f2 f3 f4 f5 f6)
  qed
  have r1: "take 8 (drop (4 + 8 * i) b1) = le_encode 8 p"
    using read_write_same [of "4 + 8 * i" "le_encode 8 p" b] bounds
    by (simp add: b1_def L_def del: le_encode.simps)
  have r6: "take 8 (drop (4 + 8 * i) b6) = le_encode 8 p"
    using bounds l1 l2 l3 l4 l5 r1
    by (simp add: b6_def b5_def b4_def b3_def b2_def read_write_frame del: le_encode.simps)
  have rk2: "take 2 (drop pos b2) = le_encode 2 (of_nat (length k) :: u16)"
    using read_write_same [of pos "le_encode 2 (of_nat (length k) :: u16)" b1] bounds l1
    by (simp add: b2_def del: le_encode.simps)
  have rk6: "take 2 (drop pos b6) = le_encode 2 (of_nat (length k) :: u16)"
    using bounds l2 l3 l4 l5 rk2
    by (simp add: b6_def b5_def b4_def b3_def read_write_frame del: le_encode.simps)
  have rv3: "take 2 (drop (pos + 2) b3) = le_encode 2 (of_nat (length v) :: u16)"
    using read_write_same [of "pos + 2" "le_encode 2 (of_nat (length v) :: u16)" b2] bounds l2
    by (simp add: b3_def del: le_encode.simps)
  have rv6: "take 2 (drop (pos + 2) b6) = le_encode 2 (of_nat (length v) :: u16)"
    using bounds l3 l4 l5 rv3
    by (simp add: b6_def b5_def b4_def read_write_frame del: le_encode.simps)
  have split: "take (2 + (2 + (length k + length v))) (drop pos b6)
      = take 2 (drop pos b6) @ take 2 (drop (pos + 2) b6)
        @ take (length k) (drop (pos + 4) b6) @ take (length v) (drop (pos + 4 + length k) b6)"
    by (rule split4)
  have raw: "take (4 + length k + length v) (drop pos b6)
      = le_encode 2 (of_nat (length k) :: u16) @ le_encode 2 (of_nat (length v) :: u16) @ k @ v"
  proof -
    have "4 + length k + length v = 2 + (2 + (length k + length v))"
      by simp
    then show ?thesis
      by (simp only: split rk6 rv6 key6 val6)
  qed
  show "nodeAppendKV b (of_nat i) p k v = Some (appended b n i off (p, k, v))"
    using run by (simp only: res)
  show "take 8 (drop (4 + 8 * i) (appended b n i off (p, k, v))) = le_encode 8 p"
    using r6 by (simp only: res)
  show "take (4 + length k + length v) (drop (4 + 10 * n + off) (appended b n i off (p, k, v)))
      = le_encode 2 (of_nat (length k) :: u16) @ le_encode 2 (of_nat (length v) :: u16) @ k @ v"
    using raw by (simp only: res pos_def)
  show "slot (appended b n i off (p, k, v)) n i off (p, k, v)"
    using sl by (simp only: res)
  show "length (appended b n i off (p, k, v)) = length b"
    using l6 by (simp only: res L_def)
  show "take m (drop q (appended b n i off (p, k, v))) = take m (drop q b)"
    if "q + m \<le> 4 + 8 * i \<or> 4 + 8 * i + 8 \<le> q \<and> q + m \<le> 4 + 8 * n + 2 * i
            \<or> 4 + 8 * n + 2 * i + 2 \<le> q \<and> q + m \<le> 4 + 10 * n + off
            \<or> 4 + 10 * n + off + (4 + length k + length v) \<le> q" for q m
    using frame [OF that] by (simp only: res)
qed


lemma slot_reads:
  assumes len: "length b < 65536" and nk: "nkeys b = Some (of_nat n)" and room: "i < n"
    and off: "getOffset b (of_nat i) = Some (of_nat off)"
    and sl: "slot b n i off (p, k, v)"
    and fit: "4 + 10 * n + off + (4 + length k + length v) \<le> length b"
  shows "getPtr b (of_nat i) = Some p"
    and "getKey b (of_nat i) = Some k"
    and "getVal b (of_nat i) = Some v"
    and "kvPos b (of_nat i) = Some (of_nat (4 + 10 * n + off))"
proof -
  define pos where "pos = 4 + 10 * n + off"
  have bounds: "length b < 65536" "i < n" "pos + 4 + length k + length v \<le> length b"
    "4 + 10 * n \<le> pos"
    using len room fit by (simp_all add: pos_def)
  have idx_lt: "(of_nat i :: u16) < of_nat n"
    using bounds by (simp add: of_nat_u16_less)
  have idx_le: "(of_nat i :: u16) \<le> of_nat n"
    using bounds by (simp add: of_nat_u16_le)
  have ptr_pos: "unat (4 + 8 * (of_nat i :: u16)) = 4 + 8 * i"
    using bounds by (intro unat_u16_eq) simp_all
  have pfit: "4 + 8 * i + 8 \<le> length b"
    using bounds by simp
  have facts: "rd64 b (4 + 8 * i) = p" "rd16 b pos = of_nat (length k)"
    "rd16 b (pos + 2) = of_nat (length v)"
    "take (length k) (drop (pos + 4) b) = k"
    "take (length v) (drop (pos + 4 + length k) b) = v"
    using sl by (simp_all add: slot_def pos_def)
  have uk: "unat (rd16 b pos) = length k"
    unfolding facts using bounds by (intro unat_u16_eq) simp_all
  have uv: "unat (rd16 b (pos + 2)) = length v"
    unfolding facts using bounds by (intro unat_u16_eq) simp_all
  show "getPtr b (of_nat i) = Some p"
    using getPtr_raw [OF nk idx_lt ptr_pos pfit] facts by simp
  have "4 + 8 * (of_nat n :: u16) + 2 * of_nat n + of_nat off = of_nat pos"
    by (simp add: pos_def)
  with kvPos_raw [OF nk idx_le off] have kv: "kvPos b (of_nat i) = Some (of_nat pos)"
    by simp
  then show "kvPos b (of_nat i) = Some (of_nat (4 + 10 * n + off))"
    by (simp only: pos_def)
  have p0: "unat (of_nat pos :: u16) = pos"
    using bounds by (intro unat_u16_eq) simp_all
  have p2: "unat ((of_nat pos :: u16) + 2) = pos + 2"
    using bounds by (intro unat_u16_eq) simp_all
  have p4: "unat ((of_nat pos :: u16) + 4) = pos + 4"
    using bounds by (intro unat_u16_eq) simp_all
  have uk': "unat (of_nat (length k) :: u16) = length k"
    using bounds by (intro unat_u16_eq) simp_all
  have p4k': "unat ((of_nat pos :: u16) + 4 + of_nat (length k)) = pos + 4 + length k"
    using bounds by (intro unat_u16_eq) simp_all
  have p4k: "unat ((of_nat pos :: u16) + 4 + rd16 b pos) = pos + 4 + unat (rd16 b pos)"
    by (simp only: facts(2) uk' p4k')
  have kfit: "pos + 4 + unat (rd16 b pos) \<le> length b"
    using bounds uk by simp
  have vfit: "pos + 4 + unat (rd16 b pos) + unat (rd16 b (pos + 2)) \<le> length b"
    using bounds uk uv by simp
  show "getKey b (of_nat i) = Some k"
    using getKey_raw [OF nk idx_lt kv p0 p4 kfit] uk facts by simp
  show "getVal b (of_nat i) = Some v"
    using getVal_raw [OF nk idx_lt kv p0 p2 p4k vfit] uk uv facts by simp
qed

lemma slot_appended_frame:
  assumes len: "length b < 65536" and nk: "nkeys b = Some (of_nat n)" and room: "i < n"
    and off: "getOffset b (of_nat i) = Some (of_nat off)"
    and fit: "4 + 10 * n + off + (4 + length k + length v) \<le> length b"
    and sl: "slot b n j offj e" and j: "j < i" and below: "offj + kv_size e \<le> off"
  shows "slot (appended b n i off (p, k, v)) n j offj e"
proof -
  note frame = nodeAppendKV_raw(6) [OF len nk room off fit, where p = p]
  have a: "take 8 (drop (4 + 8 * j) (appended b n i off (p, k, v))) = take 8 (drop (4 + 8 * j) b)"
    using j by (intro frame) simp
  have c: "take 2 (drop (4 + 8 * n + 2 * j) (appended b n i off (p, k, v)))
      = take 2 (drop (4 + 8 * n + 2 * j) b)"
    using j room by (intro frame) simp
  have k1: "take 2 (drop (4 + 10 * n + offj) (appended b n i off (p, k, v)))
      = take 2 (drop (4 + 10 * n + offj) b)"
    using j room below by (intro frame) (simp add: kv_size_def)
  have k2: "take 2 (drop (4 + 10 * n + offj + 2) (appended b n i off (p, k, v)))
      = take 2 (drop (4 + 10 * n + offj + 2) b)"
    using j room below by (intro frame) (simp add: kv_size_def)
  have k3: "take (length (fst (snd e))) (drop (4 + 10 * n + offj + 4) (appended b n i off (p, k, v)))
      = take (length (fst (snd e))) (drop (4 + 10 * n + offj + 4) b)"
    using j room below by (intro frame) (simp add: kv_size_def)
  have k4: "take (length (snd (snd e)))
        (drop (4 + 10 * n + offj + 4 + length (fst (snd e))) (appended b n i off (p, k, v)))
      = take (length (snd (snd e))) (drop (4 + 10 * n + offj + 4 + length (fst (snd e))) b)"
    using j room below by (intro frame) (simp add: kv_size_def)
  from sl show ?thesis
    unfolding slot_def rd16_def rd64_def a c k1 k2 k3 k4 .
qed

lemma nodeAppendKV_layout:
  assumes lay: "layout b n es" and room: "length es < n"
    and fit: "4 + 10 * n + osum es + (4 + length k + length v) \<le> length b"
  shows "nodeAppendKV b (of_nat (length es)) p k v
           = Some (appended b n (length es) (osum es) (p, k, v))"
    and "layout (appended b n (length es) (osum es) (p, k, v)) n (es @ [(p, k, v)])"
    and "length (appended b n (length es) (osum es) (p, k, v)) = length b"
    and "rd16 (appended b n (length es) (osum es) (p, k, v)) 0 = rd16 b 0"
proof -
  let ?b' = "appended b n (length es) (osum es) (p, k, v)"
  have len: "length b < 65536"
    using lay by (simp add: layout_def)
  have nk: "nkeys b = Some (of_nat n)"
    by (rule layout_nkeys [OF lay])
  have off: "getOffset b (of_nat (length es)) = Some (of_nat (osum es))"
    using getOffset_layout [OF lay, of "length es"] by simp
  note raw = nodeAppendKV_raw [OF len nk room off fit, where p = p]
  show "nodeAppendKV b (of_nat (length es)) p k v = Some ?b'"
    by (rule raw(1))
  show l': "length ?b' = length b"
    by (rule raw(3))
  have hdr: "take 2 (drop 2 ?b') = take 2 (drop 2 b)"
    by (intro raw(6)) simp
  have "take 2 (drop 0 ?b') = take 2 (drop 0 b)"
    by (intro raw(6)) simp
  then show "rd16 ?b' 0 = rd16 b 0"
    by (simp add: rd16_def)
  have old: "slot ?b' n j (osum (take j es)) (es ! j)" if j: "j < length es" for j
  proof (rule slot_appended_frame [OF len nk room off fit _ j])
    show "slot b n j (osum (take j es)) (es ! j)"
      using lay j by (simp add: layout_def)
    show "osum (take j es) + kv_size (es ! j) \<le> osum es"
      by (rule osum_slot_le [OF j])
  qed
  have "layout ?b' n es"
    using lay l' hdr old by (simp add: layout_def rd16_def)
  then show "layout ?b' n (es @ [(p, k, v)])"
    using fit l' raw(2) by (intro layout_snoc [OF _ room]) (simp_all add: kv_size_def)
qed

lemma layout_reads:
  assumes lay: "layout b n es" and i: "i < length es"
  shows "getPtr b (of_nat i) = Some (fst (es ! i))"
    and "getKey b (of_nat i) = Some (fst (snd (es ! i)))"
    and "getVal b (of_nat i) = Some (snd (snd (es ! i)))"
proof -
  obtain p k v where e: "es ! i = (p, k, v)"
    by (cases "es ! i") auto
  have len: "length b < 65536" and n: "length es \<le> n" and cap: "4 + 10 * n + osum es \<le> length b"
    using lay by (simp_all add: layout_def)
  have nk: "nkeys b = Some (of_nat n)"
    by (rule layout_nkeys [OF lay])
  have room: "i < n"
    using i n by simp
  have off: "getOffset b (of_nat i) = Some (of_nat (osum (take i es)))"
    using getOffset_layout [OF lay, of i] i by simp
  have "slot b n i (osum (take i es)) (es ! i)"
    using lay i by (simp add: layout_def)
  then have sl: "slot b n i (osum (take i es)) (p, k, v)"
    by (simp only: e)
  have fit: "4 + 10 * n + osum (take i es) + (4 + length k + length v) \<le> length b"
    using osum_slot_le [OF i] cap e by (simp add: kv_size_def)
  note r = slot_reads [OF len nk room off sl fit]
  show "getPtr b (of_nat i) = Some (fst (es ! i))"
    and "getKey b (of_nat i) = Some (fst (snd (es ! i)))"
    and "getVal b (of_nat i) = Some (snd (snd (es ! i)))"
    using r e by simp_all
qed

section \<open>Appending one entry\<close>





section \<open>Insert into an empty tree\<close>

lemma setHeader_layout:
  assumes "4 + 10 * n \<le> length b" and "length b < 65536"
  shows "\<exists>h. setHeader b bt (of_nat n) = Some h \<and> layout h n [] \<and> length h = length b
           \<and> rd16 h 0 = bt"
proof -
  define h1 where "h1 = write_at b 0 (le_encode 2 bt)"
  define h where "h = write_at h1 2 (le_encode 2 (of_nat n :: u16))"
  have l1: "length h1 = length b"
    using assms by (simp add: h1_def)
  have l: "length h = length b"
    using assms l1 by (simp add: h_def)
  have s1: "PutUint16 b 0 2 bt = Some h1"
    using assms by (simp add: PutUint16_def h1_def)
  have s2: "PutUint16 h1 2 4 (of_nat n) = Some h"
    using assms l1 by (simp add: PutUint16_def h_def)
  have run: "setHeader b bt (of_nat n) = Some h"
    by (simp add: setHeader_def s1 s2)
  have nk: "rd16 h 2 = of_nat n"
    unfolding h_def using assms l1 by (intro rd16_write_same) simp
  have "rd16 h1 0 = bt"
    unfolding h1_def using assms by (intro rd16_write_same) simp
  moreover have "rd16 h 0 = rd16 h1 0"
    unfolding h_def using assms l1 by (intro rd16_write_frame) simp_all
  ultimately have bt: "rd16 h 0 = bt"
    by simp
  have "layout h n []"
    using assms l nk by (simp add: layout_def)
  with run l bt show ?thesis
    by blast
qed

text \<open>
  Claim C9. On a tree whose root is 0, with a key and a value within the limits, \<open>Insert\<close>
  returns no error; it makes one allocation and no free, of a page of \<open>BTREE_PAGE_SIZE\<close>
  bytes that is a leaf of two entries: the sentinel (pointer 0, empty key, empty value)
  at index 0 and (pointer 0, key, value) at index 1; the root becomes the page number
  the host returned.
\<close>

theorem Insert_empty_tree:
  assumes empty: "root tree = 0"
    and klen: "length key \<le> BTREE_MAX_KEY_SIZE" and vlen: "length val \<le> BTREE_MAX_VAL_SIZE"
  shows "\<exists>page t. Insert tree key val = Some (None, t)
      \<and> root t = fst (new tree (host tree) page) \<and> host t = snd (new tree (host tree) page)
      \<and> calls t = calls tree @ [Alloc page (root t)]
      \<and> length page = BTREE_PAGE_SIZE \<and> btype page = Some BNODE_LEAF \<and> nkeys page = Some 2
      \<and> getPtr page 0 = Some 0 \<and> getKey page 0 = Some [] \<and> getVal page 0 = Some []
      \<and> getPtr page 1 = Some 0 \<and> getKey page 1 = Some key \<and> getVal page 1 = Some val"
proof -
  have lim: "checkLimit key val = None"
    using klen vlen by (simp add: checkLimit_def)
  have "\<exists>h. setHeader (make_bytes BTREE_PAGE_SIZE) BNODE_LEAF (of_nat 2) = Some h \<and> layout h 2 []
      \<and> length h = length (make_bytes BTREE_PAGE_SIZE) \<and> rd16 h 0 = BNODE_LEAF"
    by (rule setHeader_layout) (simp_all add: make_bytes_def BTREE_PAGE_SIZE_def)
  then obtain h where h: "setHeader (make_bytes BTREE_PAGE_SIZE) BNODE_LEAF 2 = Some h"
    "layout h 2 []" "length h = BTREE_PAGE_SIZE" "rd16 h 0 = BNODE_LEAF"
    by (auto simp: make_bytes_def)
  define r1 where "r1 = appended h 2 (length ([] :: entry list)) (osum []) (0, [], [])"
  have a1: "nodeAppendKV h (of_nat (length ([] :: entry list))) 0 [] [] = Some r1"
    "layout r1 2 ([] @ [(0, [], [])])" "length r1 = length h" "rd16 r1 0 = rd16 h 0"
    unfolding r1_def using h(3)
    by (intro nodeAppendKV_layout [OF h(2)]; simp add: BTREE_PAGE_SIZE_def)+
  define page where "page = appended r1 2 (length [(0, [], []) :: entry]) (osum [(0, [], [])])
    (0, key, val)"
  have fit: "4 + 10 * 2 + osum [(0, [], [])] + (4 + length key + length val) \<le> length r1"
    using klen vlen a1(3) h(3)
    by (simp add: kv_size_def BTREE_PAGE_SIZE_def BTREE_MAX_KEY_SIZE_def BTREE_MAX_VAL_SIZE_def)
  have lay1: "layout r1 2 [(0, [], [])]"
    using a1(2) by simp
  have a2: "nodeAppendKV r1 (of_nat (length [(0, [], []) :: entry])) 0 key val = Some page"
    "layout page 2 ([(0, [], [])] @ [(0, key, val)])" "length page = length r1"
    "rd16 page 0 = rd16 r1 0"
    unfolding page_def
    by (intro nodeAppendKV_layout [OF lay1 _ fit]; simp)+
  have lay: "layout page 2 [(0, [], []), (0, key, val)]"
    using a2(2) by simp
  have len: "length page = BTREE_PAGE_SIZE"
    using a2(3) a1(3) h(3) by simp
  have bt: "btype page = Some BNODE_LEAF"
    using a2(4) a1(4) h(4) len by (simp add: btype_raw BTREE_PAGE_SIZE_def)
  have nk: "nkeys page = Some 2"
    using layout_nkeys [OF lay] by simp
  have e0: "getPtr page 0 = Some 0" "getKey page 0 = Some []" "getVal page 0 = Some []"
    using layout_reads [OF lay, of 0] by simp_all
  have e1: "getPtr page 1 = Some 0" "getKey page 1 = Some key" "getVal page 1 = Some val"
    using layout_reads [OF lay, of 1] by simp_all
  define t where "t = (snd (tree_new tree page))\<lparr>root := fst (tree_new tree page)\<rparr>"
  have run: "Insert tree key val = Some (None, t)"
    using a1(1) a2(1)
    by (simp add: Insert_def lim empty h(1) t_def split: prod.splits)
  have t: "root t = fst (new tree (host tree) page)" "host t = snd (new tree (host tree) page)"
    "calls t = calls tree @ [Alloc page (root t)]"
    by (simp_all add: t_def tree_new_def split: prod.splits)
  from run t len bt nk e0 e1 show ?thesis
    by blast
qed

theorem Insert_empty_tree_witness:
  "root ex_empty_tree = 0 \<and> calls ex_empty_tree = []
   \<and> (\<exists>page t. Insert ex_empty_tree [0x61] [0x78] = Some (None, t)
        \<and> root t = 100 \<and> calls t = [Alloc page 100]
        \<and> length page = 4096 \<and> btype page = Some 1 \<and> nkeys page = Some 2
        \<and> getKey page 0 = Some [] \<and> getVal page 0 = Some []
        \<and> getKey page 1 = Some [0x61] \<and> getVal page 1 = Some [0x78])"
proof -
  have r: "root ex_empty_tree = 0" and c: "calls ex_empty_tree = []"
    and n: "\<And>page. fst (new ex_empty_tree (host ex_empty_tree) page) = 100"
    by (simp_all add: ex_empty_tree_def)
  have k: "length [0x61 :: byte] \<le> BTREE_MAX_KEY_SIZE"
    and v: "length [0x78 :: byte] \<le> BTREE_MAX_VAL_SIZE"
    by (simp_all add: BTREE_MAX_KEY_SIZE_def BTREE_MAX_VAL_SIZE_def)
  from Insert_empty_tree [OF r k v]
  obtain page t where "Insert ex_empty_tree [0x61] [0x78] = Some (None, t)"
    "root t = fst (new ex_empty_tree (host ex_empty_tree) page)"
    "calls t = calls ex_empty_tree @ [Alloc page (root t)]"
    "length page = BTREE_PAGE_SIZE" "btype page = Some BNODE_LEAF" "nkeys page = Some 2"
    "getKey page 0 = Some []" "getVal page 0 = Some []"
    "getKey page 1 = Some [0x61]" "getVal page 1 = Some [0x78]"
    by blast
  then have "\<exists>page t. Insert ex_empty_tree [0x61] [0x78] = Some (None, t)
        \<and> root t = 100 \<and> calls t = [Alloc page 100]
        \<and> length page = 4096 \<and> btype page = Some 1 \<and> nkeys page = Some 2
        \<and> getKey page 0 = Some [] \<and> getVal page 0 = Some []
        \<and> getKey page 1 = Some [0x61] \<and> getVal page 1 = Some [0x78]"
    by (simp add: n c BTREE_PAGE_SIZE_def BNODE_LEAF_def)
  with r c show ?thesis
    by blast
qed

end
